theory Spec2Isabelle
  imports Complex_Main
begin

section \<open>MeanShiftR: kernel primitives and clustering of modes\<close>

text \<open>
  The two C++ files of the package are embedded here:
  \<^item> \<^verbatim>\<open>src/LittleFunctionsCollection.cpp\<close>: \<^verbatim>\<open>InCylinder\<close>, \<^verbatim>\<open>VerticalDistance\<close>,
    \<^verbatim>\<open>EpanechnikovFunction\<close>, \<^verbatim>\<open>GaussFunction\<close>;
  \<^item> \<^verbatim>\<open>src/FindCluster.cpp\<close>: \<^verbatim>\<open>FindCluster\<close>.

  The specification calls them \<open>CylinderMembership\<close> (\<^verbatim>\<open>InCylinder\<close>),
  \<open>VerticalDistance\<close>, \<open>VerticalKernelWeight\<close> (\<^verbatim>\<open>EpanechnikovFunction\<close>),
  \<open>HorizontalKernelWeight\<close> (\<^verbatim>\<open>GaussFunction\<close>) and \<open>FindCluster\<close>.

  Every number of the source is a \<^verbatim>\<open>double\<close>, and the functions are embedded over a
  model of IEEE 754 binary64: the finite values, the two infinities and NaN, with
  every operation rounded to the nearest representable value (ties to even),
  gradual underflow and overflow to an infinity. The first part of the theory is
  that arithmetic, the second the five functions, written operation by operation
  as the source has them.
\<close>

section \<open>Binary64 arithmetic\<close>

subsection \<open>Rounding a real number\<close>

text \<open>
  Rounding to the nearest integer, ties to the even one.
\<close>

definition round_even :: "real \<Rightarrow> int" where
  "round_even x =
     (let f = \<lfloor>x\<rfloor>; r = x - of_int f
      in if r < 1 / 2 then f else if 1 / 2 < r then f + 1 else if even f then f else f + 1)"

text \<open>
  The binade of a nonzero real \<open>x\<close> is the exponent \<open>e\<close> with
  \<open>2^e \<le> |x| < 2^(e+1)\<close>. A binary64 value has 53 significant bits and the least
  exponent of a normal value is \<open>-1022\<close>, so around \<open>x\<close> the representable values are
  the multiples of \<open>2^(binade x - 52)\<close>, and the multiples of \<open>2^(-1074)\<close> in the
  subnormal range.
\<close>

definition binade :: "real \<Rightarrow> int" where
  "binade x = \<lfloor>log 2 \<bar>x\<bar>\<rfloor>"

definition ulp_exponent :: "real \<Rightarrow> int" where
  "ulp_exponent x = max (binade x - 52) (- 1074)"

text \<open>
  The nearest multiple of \<open>2^e\<close>, ties to the even multiple.
\<close>

definition grid :: "int \<Rightarrow> real \<Rightarrow> real" where
  "grid e x = of_int (round_even (x / 2 powi e)) * 2 powi e"

text \<open>
  The rounded value of a real, before the test for overflow.
\<close>

definition gval :: "real \<Rightarrow> real" where
  "gval x = (if x = 0 then 0 else grid (ulp_exponent x) x)"

subsection \<open>The values of a double\<close>

text \<open>
  A \<^verbatim>\<open>double\<close> is a finite value, an infinity or NaN. The two zeros of IEEE 754 are
  the one value \<open>Fin 0\<close>: they compare equal, and the functions below tell them
  apart nowhere (the sign of a zero only shows in the sign of a quotient by it, and
  each such quotient of the source goes through \<^verbatim>\<open>fabs\<close> or a square; the sign of a
  zero result itself is not kept). A value \<open>Fin x\<close> may carry any real \<open>x\<close>;
  \<open>is_double\<close> says that it is representable, which every result of an operation
  is.
\<close>

datatype double = Fin real | PInf | NInf | NaN

text \<open>
  A rounded magnitude of \<open>2^1024\<close> or more is an infinity. The largest finite value
  is \<open>2^1024 - 2^971\<close>, and the grid rounds everything from \<open>2^1024 - 2^970\<close> on up
  to \<open>2^1024\<close>.
\<close>

definition overflow :: "real \<Rightarrow> double" where
  "overflow v =
     (if 2 powi 1024 \<le> v then PInf else if v \<le> - (2 powi 1024) then NInf else Fin v)"

definition rnd :: "real \<Rightarrow> double" where
  "rnd x = (if x = 0 then Fin 0 else overflow (grid (ulp_exponent x) x))"

text \<open>
  The representable values: rounding leaves them as they are.
\<close>

definition is_double :: "double \<Rightarrow> bool" where
  "is_double d = (case d of Fin x \<Rightarrow> rnd x = Fin x | _ \<Rightarrow> True)"

text \<open>
  The finite values, and the real number that a finite value carries (the column
  \<^verbatim>\<open>ID\<close> of the result of \<^verbatim>\<open>FindCluster\<close> is read back through it as a row index).
\<close>

fun is_fin :: "double \<Rightarrow> bool" where
  "is_fin (Fin x) = True"
| "is_fin PInf = False"
| "is_fin NInf = False"
| "is_fin NaN = False"

fun valof :: "double \<Rightarrow> real" where
  "valof (Fin x) = x"
| "valof PInf = 0"
| "valof NInf = 0"
| "valof NaN = 0"

subsection \<open>The operations\<close>

text \<open>
  The comparisons \<^verbatim>\<open><\<close> and \<^verbatim>\<open><=\<close> (every comparison with NaN is false), the negation,
  and the four operations \<^verbatim>\<open>+\<close>, \<^verbatim>\<open>-\<close>, \<^verbatim>\<open>*\<close>, \<^verbatim>\<open>/\<close> of the source: exact on the reals and
  then rounded, with the IEEE results on infinities, NaN and a zero divisor.
\<close>

instantiation double :: "{ord, plus, minus, uminus, times, inverse}"
begin

fun less_double :: "double \<Rightarrow> double \<Rightarrow> bool" where
  "Fin x < Fin y \<longleftrightarrow> x < y"
| "Fin x < PInf \<longleftrightarrow> True"
| "NInf < Fin y \<longleftrightarrow> True"
| "NInf < PInf \<longleftrightarrow> True"
| "(_::double) < _ \<longleftrightarrow> False"

fun less_eq_double :: "double \<Rightarrow> double \<Rightarrow> bool" where
  "Fin x \<le> Fin y \<longleftrightarrow> x \<le> y"
| "Fin x \<le> PInf \<longleftrightarrow> True"
| "NInf \<le> Fin y \<longleftrightarrow> True"
| "NInf \<le> PInf \<longleftrightarrow> True"
| "NInf \<le> NInf \<longleftrightarrow> True"
| "PInf \<le> PInf \<longleftrightarrow> True"
| "(_::double) \<le> _ \<longleftrightarrow> False"

fun uminus_double :: "double \<Rightarrow> double" where
  "- Fin x = Fin (- x)"
| "- PInf = NInf"
| "- NInf = PInf"
| "- NaN = NaN"

fun plus_double :: "double \<Rightarrow> double \<Rightarrow> double" where
  "Fin x + Fin y = rnd (x + y)"
| "NaN + _ = NaN"
| "_ + NaN = NaN"
| "PInf + NInf = NaN"
| "NInf + PInf = NaN"
| "PInf + _ = PInf"
| "_ + PInf = PInf"
| "NInf + _ = NInf"
| "_ + NInf = NInf"

definition minus_double :: "double \<Rightarrow> double \<Rightarrow> double" where
  "minus_double a b = a + (- b)"

fun times_double :: "double \<Rightarrow> double \<Rightarrow> double" where
  "Fin x * Fin y = rnd (x * y)"
| "NaN * _ = NaN"
| "_ * NaN = NaN"
| "PInf * Fin y = (if y = 0 then NaN else if 0 < y then PInf else NInf)"
| "NInf * Fin y = (if y = 0 then NaN else if 0 < y then NInf else PInf)"
| "Fin x * PInf = (if x = 0 then NaN else if 0 < x then PInf else NInf)"
| "Fin x * NInf = (if x = 0 then NaN else if 0 < x then NInf else PInf)"
| "PInf * PInf = PInf"
| "PInf * NInf = NInf"
| "NInf * PInf = NInf"
| "NInf * NInf = PInf"

fun divide_double :: "double \<Rightarrow> double \<Rightarrow> double" where
  "divide_double (Fin x) (Fin y) =
     (if y = 0 then (if x = 0 then NaN else if 0 < x then PInf else NInf) else rnd (x / y))"
| "divide_double NaN _ = NaN"
| "divide_double _ NaN = NaN"
| "divide_double (Fin x) PInf = Fin 0"
| "divide_double (Fin x) NInf = Fin 0"
| "divide_double PInf (Fin y) = (if 0 \<le> y then PInf else NInf)"
| "divide_double NInf (Fin y) = (if 0 \<le> y then NInf else PInf)"
| "divide_double PInf PInf = NaN"
| "divide_double PInf NInf = NaN"
| "divide_double NInf PInf = NaN"
| "divide_double NInf NInf = NaN"

definition inverse_double :: "double \<Rightarrow> double" where
  "inverse_double a = divide (Fin 1) a"

instance ..

end

text \<open>
  The library functions that the source calls. \<^verbatim>\<open>std::min(a, b)\<close> returns \<^verbatim>\<open>b\<close> when
  \<^verbatim>\<open>b < a\<close> and \<^verbatim>\<open>a\<close> otherwise. \<^verbatim>\<open>pow(x, 2.0)\<close> (and \<^verbatim>\<open>pow(x, 2)\<close>, whose exponent is
  converted) is the rounded square, \<^verbatim>\<open>sqrt\<close> the rounded square root, and \<^verbatim>\<open>std::exp\<close>
  the rounded exponential. IEEE 754 prescribes that rounding for \<^verbatim>\<open>sqrt\<close>; a C library
  promises \<^verbatim>\<open>pow\<close> and \<^verbatim>\<open>exp\<close> only within about one unit in the last place, and the
  functions are taken as correctly rounded here.
\<close>

fun fabs :: "double \<Rightarrow> double" where
  "fabs (Fin x) = Fin \<bar>x\<bar>"
| "fabs PInf = PInf"
| "fabs NInf = PInf"
| "fabs NaN = NaN"

definition std_min :: "double \<Rightarrow> double \<Rightarrow> double" where
  "std_min a b = (if b < a then b else a)"

fun pow_2 :: "double \<Rightarrow> double" where
  "pow_2 (Fin x) = rnd (x * x)"
| "pow_2 PInf = PInf"
| "pow_2 NInf = PInf"
| "pow_2 NaN = NaN"

fun sqrt_double :: "double \<Rightarrow> double" where
  "sqrt_double (Fin x) = (if x < 0 then NaN else rnd (sqrt x))"
| "sqrt_double PInf = PInf"
| "sqrt_double NInf = NaN"
| "sqrt_double NaN = NaN"

fun exp_double :: "double \<Rightarrow> double" where
  "exp_double (Fin x) = rnd (exp x)"
| "exp_double PInf = PInf"
| "exp_double NInf = Fin 0"
| "exp_double NaN = NaN"

text \<open>
  Sign classes used in the proofs: not below zero (NaN included), an infinity or
  NaN, and the values that are neither NaN nor negative, respectively neither NaN
  nor positive.
\<close>

definition not_negative :: "double \<Rightarrow> bool" where
  "not_negative d = (\<not> d < Fin 0)"

definition inf_or_nan :: "double \<Rightarrow> bool" where
  "inf_or_nan d = (d = PInf \<or> d = NaN)"

definition nn :: "double \<Rightarrow> bool" where
  "nn d = (case d of Fin v \<Rightarrow> 0 \<le> v | PInf \<Rightarrow> True | NInf \<Rightarrow> False | NaN \<Rightarrow> False)"

definition np :: "double \<Rightarrow> bool" where
  "np d = (case d of Fin v \<Rightarrow> v \<le> 0 | PInf \<Rightarrow> False | NInf \<Rightarrow> True | NaN \<Rightarrow> False)"

section \<open>The program\<close>

subsection \<open>LittleFunctionsCollection.cpp\<close>

text \<open>
  \<^verbatim>\<open>bool InCylinder(double PointX, double PointY, double PointZ, double Radius,
                  double Height, double CtrX, double CtrY, double CtrZ)\<close>:
  the sum of the two squared offsets is compared with the squared radius, and the
  height with the window of half the height on each side of the centre.
\<close>

definition InCylinder ::
  "double \<Rightarrow> double \<Rightarrow> double \<Rightarrow> double \<Rightarrow> double \<Rightarrow> double \<Rightarrow> double \<Rightarrow> double \<Rightarrow> bool" where
  "InCylinder PointX PointY PointZ Radius Height CtrX CtrY CtrZ =
     (if pow_2 (PointX - CtrX) + pow_2 (PointY - CtrY) \<le> pow_2 Radius
          \<and> PointZ \<ge> CtrZ - Fin 0.5 * Height
          \<and> PointZ \<le> CtrZ + Fin 0.5 * Height
      then True
      else False)"

text \<open>
  \<^verbatim>\<open>double VerticalDistance(double Height, double CtrZ, double PointZ)\<close>: each of the
  two offsets is divided by \<^verbatim>\<open>3.0*Height/8.0\<close> before its absolute value is taken.
\<close>

definition VerticalDistance :: "double \<Rightarrow> double \<Rightarrow> double \<Rightarrow> double" where
  "VerticalDistance Height CtrZ PointZ =
     (let BottomDistance = fabs ((CtrZ - Height / Fin 4 - PointZ) / (Fin 3 * Height / Fin 8));
          TopDistance = fabs ((CtrZ + Height / Fin 2 - PointZ) / (Fin 3 * Height / Fin 8));
          MinDistance = std_min BottomDistance TopDistance
      in MinDistance)"

text \<open>
  \<^verbatim>\<open>double EpanechnikovFunction(double Height, double CtrZ, double PointZ)\<close>:
  the mask first, the profile inside it, \<^verbatim>\<open>return 0\<close> outside.
\<close>

definition EpanechnikovFunction :: "double \<Rightarrow> double \<Rightarrow> double \<Rightarrow> double" where
  "EpanechnikovFunction Height CtrZ PointZ =
     (if PointZ \<ge> CtrZ - Height / Fin 4 \<and> PointZ \<le> CtrZ + Height / Fin 2
      then Fin 1 - pow_2 (Fin 1 - VerticalDistance Height CtrZ PointZ)
      else Fin 0)"

text \<open>
  \<^verbatim>\<open>double GaussFunction(double Width, double CtrX, double CtrY, double PointX,
                       double PointY)\<close>.
\<close>

definition GaussFunction :: "double \<Rightarrow> double \<Rightarrow> double \<Rightarrow> double \<Rightarrow> double \<Rightarrow> double" where
  "GaussFunction Width CtrX CtrY PointX PointY =
     (let Distance = sqrt_double (pow_2 (PointX - CtrX) + pow_2 (PointY - CtrY));
          NormDistance = Distance / (Width / Fin 2);
          Result = exp_double (Fin (- 5) * pow_2 NormDistance)
      in Result)"

subsection \<open>FindCluster.cpp\<close>

text \<open>
  \<^verbatim>\<open>DataFrame FindCluster(NumericMatrix ctr, double epsilon)\<close>.

  The matrix \<^verbatim>\<open>ctr\<close> has one row per centroid and the three columns \<open>0\<close>, \<open>1\<close>, \<open>2\<close> that
  the function reads: it is the list of its rows, each a triple. \<^verbatim>\<open>ctr(i, c)\<close> is
  \<open>cell ctr i c\<close>; the function only reads rows \<open>i < nrows\<close>. The indices \<^verbatim>\<open>i\<close>, \<^verbatim>\<open>j\<close>,
  \<^verbatim>\<open>id\<close> and \<^verbatim>\<open>nrows\<close> are C++ \<^verbatim>\<open>int\<close>s that stay between \<open>0\<close> and the number of
  rows, so they are natural numbers here. The result is the data frame of the four
  columns \<^verbatim>\<open>X\<close>, \<^verbatim>\<open>Y\<close>, \<^verbatim>\<open>Z\<close>, \<^verbatim>\<open>ID\<close>; the ids are stored in a \<^verbatim>\<open>NumericVector\<close>, so
  the column \<^verbatim>\<open>ID\<close> holds doubles, and the conversion of a row index to a double is
  exact.
\<close>

type_synonym NumericMatrix = "(double \<times> double \<times> double) list"

record DataFrame =
  X :: "double list"
  Y :: "double list"
  Z :: "double list"
  ID :: "double list"

fun column :: "double \<times> double \<times> double \<Rightarrow> nat \<Rightarrow> double" where
  "column (x, y, z) c = (if c = 0 then x else if c = 1 then y else z)"

definition cell :: "NumericMatrix \<Rightarrow> nat \<Rightarrow> nat \<Rightarrow> double" where
  "cell ctr i c = column (ctr ! i) c"

text \<open>
  The \<^verbatim>\<open>delta\<close> of the inner loop's body, for the rows \<open>i\<close> and \<open>j\<close>.
\<close>

definition delta :: "NumericMatrix \<Rightarrow> nat \<Rightarrow> nat \<Rightarrow> double" where
  "delta ctr i j =
     sqrt_double (pow_2 (cell ctr i 0 - cell ctr j 0) + pow_2 (cell ctr i 1 - cell ctr j 1)
                  + pow_2 (cell ctr i 2 - cell ctr j 2))"

text \<open>
  The inner loop \<^verbatim>\<open>for (int j = 0; j < i && !found; j++)\<close>, from the state
  \<open>(j, id, found)\<close>; its value is the \<^verbatim>\<open>id\<close> at the exit.
\<close>

function inner_loop :: "NumericMatrix \<Rightarrow> double \<Rightarrow> nat \<Rightarrow> nat \<Rightarrow> nat \<Rightarrow> bool \<Rightarrow> nat" where
  "inner_loop ctr epsilon i j id' found =
     (if j < i \<and> \<not> found
      then (if delta ctr i j < epsilon
            then inner_loop ctr epsilon i (j + 1) j True
            else inner_loop ctr epsilon i (j + 1) id' found)
      else id')"
  by pat_completeness auto
termination
  by (relation "measure (\<lambda>(ctr, epsilon, i, j, id', found). i - j)") auto

text \<open>
  The outer loop \<^verbatim>\<open>for (int i = 0; i < nrows; i++)\<close>: each round starts the inner loop
  with \<^verbatim>\<open>id = i\<close>, \<^verbatim>\<open>found = false\<close>, \<^verbatim>\<open>j = 0\<close> and stores its result in \<^verbatim>\<open>clus[i]\<close>.
\<close>

function outer_loop :: "NumericMatrix \<Rightarrow> double \<Rightarrow> nat \<Rightarrow> nat \<Rightarrow> double list \<Rightarrow> double list" where
  "outer_loop ctr epsilon nrows i clus =
     (if i < nrows
      then outer_loop ctr epsilon nrows (i + 1)
             (clus[i := Fin (real (inner_loop ctr epsilon i 0 i False))])
      else clus)"
  by pat_completeness auto
termination
  by (relation "measure (\<lambda>(ctr, epsilon, nrows, i, clus). nrows - i)") auto

declare inner_loop.simps [simp del] outer_loop.simps [simp del]

definition FindCluster :: "NumericMatrix \<Rightarrow> double \<Rightarrow> DataFrame" where
  "FindCluster ctr epsilon =
     (let nrows = length ctr;
          clus = replicate nrows (Fin 0);
          clus = outer_loop ctr epsilon nrows 0 clus
      in \<lparr>X = map (\<lambda>row. column row 0) ctr,
          Y = map (\<lambda>row. column row 1) ctr,
          Z = map (\<lambda>row. column row 2) ctr,
          ID = clus\<rparr>)"

subsection \<open>The specification's side\<close>

text \<open>
  The two definitions of this subsection are not code of the package. They write
  down, in the specification's words, what the theorems on \<^verbatim>\<open>FindCluster\<close> compare
  the code with.

  The leader rule: scan \<open>j = 0, \<dots>, i - 1\<close> upward, the first \<open>j\<close> whose distance to \<open>i\<close>
  is below \<open>epsilon\<close> is the id of \<open>i\<close>; with no such \<open>j\<close> the id is \<open>i\<close>.
\<close>

definition spec_leader :: "NumericMatrix \<Rightarrow> double \<Rightarrow> nat \<Rightarrow> nat" where
  "spec_leader ctr epsilon i =
     (case find (\<lambda>j. delta ctr i j < epsilon) [0..<i] of None \<Rightarrow> i | Some j \<Rightarrow> j)"

text \<open>
  The leader coordinates of an output table: row by row, the coordinates of the
  row that the \<^verbatim>\<open>ID\<close> column names as its leader. This is the input of the
  re-clustering in the specification's idempotence property.
\<close>

definition spec_leader_coordinates :: "DataFrame \<Rightarrow> NumericMatrix" where
  "spec_leader_coordinates df =
     map (\<lambda>v. let l = nat \<lfloor>valof v\<rfloor> in (X df ! l, Y df ! l, Z df ! l)) (ID df)"

section \<open>Auxiliary facts\<close>

subsection \<open>Rounding to the nearest integer and to a grid\<close>

lemma round_even_of_int [simp]: "round_even (of_int n) = n"
  by (simp add: round_even_def)

lemma round_even_eqI:
  assumes "\<bar>x - of_int m\<bar> < 1 / 2"
  shows "round_even x = m"
proof (cases "of_int m \<le> x")
  case True
  then have "\<lfloor>x\<rfloor> = m" using assms by (intro floor_unique) (auto simp: abs_if split: if_splits)
  then show ?thesis using assms True by (simp add: round_even_def Let_def)
next
  case False
  then have "\<lfloor>x\<rfloor> = m - 1" using assms by (intro floor_unique) (auto simp: abs_if split: if_splits)
  then show ?thesis using assms False by (simp add: round_even_def Let_def)
qed

lemma round_even_bounds: "\<lfloor>x\<rfloor> \<le> round_even x \<and> round_even x \<le> \<lfloor>x\<rfloor> + 1"
  by (simp add: round_even_def Let_def)

lemma round_even_mono:
  assumes "x \<le> y"
  shows "round_even x \<le> round_even y"
proof (cases "\<lfloor>x\<rfloor> < \<lfloor>y\<rfloor>")
  case True
  then show ?thesis using round_even_bounds [of x] round_even_bounds [of y] by linarith
next
  case False
  then have eq: "\<lfloor>x\<rfloor> = \<lfloor>y\<rfloor>" using assms floor_mono [of x y] by linarith
  then have "x - of_int \<lfloor>x\<rfloor> \<le> y - of_int \<lfloor>y\<rfloor>" using assms by simp
  then show ?thesis using eq by (auto simp add: round_even_def Let_def)
qed

lemma round_even_uminus: "round_even (- x) = - round_even x"
proof (cases "x = of_int \<lfloor>x\<rfloor>")
  case True
  then obtain n where "x = of_int n" ..
  then show ?thesis by (simp flip: of_int_minus)
next
  case False
  then have lt: "of_int \<lfloor>x\<rfloor> < x" using of_int_floor_le [of x] by linarith
  have fl: "\<lfloor>- x\<rfloor> = - \<lfloor>x\<rfloor> - 1"
    using lt by (intro floor_unique) (auto, linarith)
  show ?thesis
    unfolding round_even_def Let_def fl using lt by (auto simp: even_diff_iff) 
qed

lemma two_powr_of_int: "(2::real) powr real_of_int k = 2 powi k"
  by (rule powr_real_of_int') simp_all

lemma binade_bounds:
  assumes "x \<noteq> 0"
  shows "2 powi binade x \<le> \<bar>x\<bar>" and "\<bar>x\<bar> < 2 powi (binade x + 1)"
proof -
  have pos: "0 < \<bar>x\<bar>" using assms by simp
  have "\<lfloor>log 2 \<bar>x\<bar>\<rfloor> = binade x" by (simp add: binade_def)
  then have "2 powr real_of_int (binade x) \<le> \<bar>x\<bar> \<and> \<bar>x\<bar> < 2 powr real_of_int (binade x + 1)"
    using floor_log_eq_powr_iff [OF pos, of 2 "binade x"] by simp
  then show "2 powi binade x \<le> \<bar>x\<bar>" and "\<bar>x\<bar> < 2 powi (binade x + 1)"
    by (simp_all only: two_powr_of_int)
qed

lemma binade_eqI:
  assumes "2 powi k \<le> \<bar>x\<bar>" and "\<bar>x\<bar> < 2 powi (k + 1)"
  shows "binade x = k"
proof -
  have "0 < (2::real) powi k" by simp
  then have pos: "0 < \<bar>x\<bar>" using assms(1) by linarith
  have "2 powr real_of_int k \<le> \<bar>x\<bar> \<and> \<bar>x\<bar> < 2 powr real_of_int (k + 1)"
    using assms by (simp only: two_powr_of_int)
  then show ?thesis
    unfolding binade_def using floor_log_eq_powr_iff [OF pos, of 2 k] by simp
qed

lemma binade_uminus [simp]: "binade (- x) = binade x"
  by (simp add: binade_def)

lemma binade_mono:
  assumes "x \<noteq> 0" and "\<bar>x\<bar> \<le> \<bar>y\<bar>"
  shows "binade x \<le> binade y"
  unfolding binade_def using assms by (intro floor_mono log_mono) auto

lemma ulp_exponent_uminus [simp]: "ulp_exponent (- x) = ulp_exponent x"
  by (simp add: ulp_exponent_def)

lemma grid_mono: "x \<le> y \<Longrightarrow> grid e x \<le> grid e y"
  unfolding grid_def
  by (intro mult_right_mono) (simp_all add: round_even_mono divide_right_mono)

lemma grid_uminus: "grid e (- x) = - grid e x"
  by (simp add: grid_def round_even_uminus)

lemma grid_exact:
  assumes "e \<le> e'"
  shows "grid e (of_int m * 2 powi e') = of_int m * 2 powi e'"
proof -
  have a: "(2::real) powi e' = 2 powi (e' - e) * 2 powi e"
    by (simp flip: power_int_add)
  have b: "(2::real) powi (e' - e) = of_int (2 ^ nat (e' - e))"
    using assms by (simp add: power_int_def)
  have "real_of_int m * 2 powi e' / 2 powi e = real_of_int m * 2 powi (e' - e)"
    unfolding a by simp
  also have "\<dots> = real_of_int (m * 2 ^ nat (e' - e))"
    unfolding b by simp
  finally have "round_even (real_of_int m * 2 powi e' / 2 powi e) = m * 2 ^ nat (e' - e)"
    by (simp only: round_even_of_int)
  then have "grid e (of_int m * 2 powi e') = real_of_int (m * 2 ^ nat (e' - e)) * 2 powi e"
    by (simp add: grid_def)
  also have "\<dots> = real_of_int m * (2 powi (e' - e) * 2 powi e)"
    unfolding b by simp
  finally show ?thesis unfolding a .
qed

subsection \<open>Powers of two\<close>

text \<open>
  Large powers of two stay symbolic: the two rules that would expand
  \<open>2 powi 1024\<close> into a numeral are taken out of the simplifier, and the comparisons
  and products of powers of two are decided on the exponents.
\<close>

declare power_int_numeral [simp del] power_int_numeral_neg_numeral [simp del]

lemma two_powi_le_iff [simp]: "(2::real) powi a \<le> 2 powi b \<longleftrightarrow> a \<le> b"
proof
  assume "(2::real) powi a \<le> 2 powi b"
  show "a \<le> b"
  proof (rule ccontr)
    assume "\<not> a \<le> b"
    then have "(2::real) powi b < 2 powi a" by (intro power_int_strict_increasing) simp_all
    with \<open>(2::real) powi a \<le> 2 powi b\<close> show False by simp
  qed
next
  assume "a \<le> b"
  then show "(2::real) powi a \<le> 2 powi b" by (intro power_int_increasing) simp_all
qed

lemma two_powi_less_iff [simp]: "(2::real) powi a < 2 powi b \<longleftrightarrow> a < b"
  using two_powi_le_iff [of b a] by (simp only: not_le [symmetric])

lemma two_powi_one_iff [simp]:
  "(1::real) < 2 powi a \<longleftrightarrow> 0 < a" "(1::real) \<le> 2 powi a \<longleftrightarrow> 0 \<le> a"
  "(2::real) powi a < 1 \<longleftrightarrow> a < 0" "(2::real) powi a \<le> 1 \<longleftrightarrow> a \<le> 0"
  using two_powi_less_iff [of 0 a] two_powi_le_iff [of 0 a]
    two_powi_less_iff [of a 0] two_powi_le_iff [of a 0]
  by simp_all

lemma two_powi_mult [simp]: "(2::real) powi a * 2 powi b = 2 powi (a + b)"
  by (simp add: power_int_add)

lemma two_powi_divide [simp]: "(2::real) powi a / 2 powi b = 2 powi (a - b)"
  by (simp add: power_int_diff)

lemma two_powi_pos [simp]:
  "0 < (2::real) powi a" "0 \<le> (2::real) powi a" "(2::real) powi a \<noteq> 0"
  "\<not> (2::real) powi a \<le> 0" "\<not> (2::real) powi a < 0"
  by (simp_all add: not_le not_less less_imp_le)

subsection \<open>Rounding is monotone, odd and exact on representable values\<close>

lemma rnd_gval: "rnd x = overflow (gval x)"
  by (simp add: rnd_def gval_def overflow_def)

lemma overflow_Fin: "\<bar>v\<bar> < 2 powi 1024 \<Longrightarrow> overflow v = Fin v"
  by (auto simp add: overflow_def abs_if split: if_splits)

lemma overflow_mono: "v \<le> w \<Longrightarrow> overflow v \<le> overflow w"
  by (auto simp add: overflow_def)

lemma overflow_uminus: "overflow (- v) = - overflow v"
proof -
  define t :: real where "t = 2 powi 1024"
  have "0 < t" by (simp add: t_def)
  then show ?thesis unfolding overflow_def t_def [symmetric] by auto
qed

lemma gval_uminus: "gval (- x) = - gval x"
  by (simp add: gval_def grid_uminus)

lemma round_even_zero [simp]: "round_even 0 = 0"
  using round_even_of_int [of 0] by simp

lemma grid_zero [simp]: "grid e 0 = 0"
  by (simp add: grid_def)

lemma two_powi_less_D: "(2::real) powi a < 2 powi b \<Longrightarrow> a < b"
  by simp

lemma gval_nonneg: "0 \<le> x \<Longrightarrow> 0 \<le> gval x"
  using grid_mono [of 0 x "ulp_exponent x"] by (simp add: gval_def)

lemma ulp_exponent_mono:
  "x \<noteq> 0 \<Longrightarrow> \<bar>x\<bar> \<le> \<bar>y\<bar> \<Longrightarrow> ulp_exponent x \<le> ulp_exponent y"
  using binade_mono [of x y] by (simp add: ulp_exponent_def)

lemma grid_power: "e \<le> k \<Longrightarrow> grid e (2 powi k) = 2 powi k"
  using grid_exact [of e k 1] by simp

lemma gval_mono_pos:
  assumes "0 < x" and "x \<le> y"
  shows "gval x \<le> gval y"
proof -
  let ?ex = "ulp_exponent x" and ?ey = "ulp_exponent y"
  have x0: "x \<noteq> 0" and y0: "y \<noteq> 0" using assms by simp_all
  have le: "?ex \<le> ?ey" using assms by (intro ulp_exponent_mono) simp_all
  show ?thesis
  proof (cases "?ex = ?ey")
    case True
    then show ?thesis using x0 y0 grid_mono [OF assms(2), of ?ey] by (simp add: gval_def)
  next
    case False
    then have lt: "?ex < ?ey" using le by simp
    then have ey: "?ey = binade y - 52"
      by (auto simp add: ulp_exponent_def max_def split: if_splits)
    have kx: "binade x - 52 \<le> ?ex" by (simp add: ulp_exponent_def)
    then have k: "binade x + 1 \<le> binade y" using lt ey by simp
    let ?p = "(2::real) powi binade y"
    have "x < 2 powi (binade x + 1)" using binade_bounds(2) [OF x0] assms(1) by simp
    also have "\<dots> \<le> ?p" using k by (intro power_int_increasing) simp_all
    finally have xp: "x \<le> ?p" by simp
    have py: "?p \<le> y" using binade_bounds(1) [OF y0] assms by simp
    have "grid ?ex x \<le> grid ?ex ?p" using xp by (rule grid_mono)
    also have "grid ?ex ?p = ?p" using lt ey by (intro grid_power) simp
    also have "?p = grid ?ey ?p" using ey by (intro grid_power [symmetric]) simp
    also have "\<dots> \<le> grid ?ey y" using py by (rule grid_mono)
    finally show ?thesis using x0 y0 by (simp add: gval_def)
  qed
qed

lemma gval_mono:
  assumes "x \<le> y"
  shows "gval x \<le> gval y"
proof -
  consider "0 < x" | "x \<le> 0" "0 \<le> y" | "y < 0" by linarith
  then show ?thesis
  proof cases
    case 1
    then show ?thesis using assms by (rule gval_mono_pos)
  next
    case 2
    have "gval x \<le> 0" using gval_nonneg [of "- x"] 2(1) by (simp add: gval_uminus)
    moreover have "0 \<le> gval y" using 2(2) by (rule gval_nonneg)
    ultimately show ?thesis by simp
  next
    case 3
    then have "gval (- y) \<le> gval (- x)" using assms by (intro gval_mono_pos) simp_all
    then show ?thesis by (simp add: gval_uminus)
  qed
qed

lemma rnd_mono: "x \<le> y \<Longrightarrow> rnd x \<le> rnd y"
  unfolding rnd_gval by (intro overflow_mono gval_mono)

lemma rnd_uminus: "rnd (- x) = - rnd x"
  by (simp add: rnd_gval gval_uminus overflow_uminus)

lemma rnd_zero [simp]: "rnd 0 = Fin 0"
  by (simp add: rnd_def)

lemma rnd_not_NaN [simp]: "rnd x \<noteq> NaN"
  by (simp add: rnd_def overflow_def)

lemma rnd_exact:
  assumes x: "x = of_int m * 2 powi e"
    and m: "\<bar>m\<bar> < 2 ^ 53" and e: "- 1074 \<le> e" and fin: "\<bar>x\<bar> < 2 powi 1024"
  shows "rnd x = Fin x"
proof (cases "x = 0")
  case True
  then show ?thesis by simp
next
  case False
  have "\<bar>x\<bar> = of_int \<bar>m\<bar> * 2 powi e" by (simp add: x abs_mult)
  also have "\<dots> < 2 powi 53 * 2 powi e"
  proof (intro mult_strict_right_mono)
    have "real_of_int \<bar>m\<bar> < real_of_int (2 ^ 53)" using m by (simp only: of_int_less_iff)
    also have "real_of_int (2 ^ 53) = 2 powi 53" by (simp add: power_int_def)
    finally show "real_of_int \<bar>m\<bar> < 2 powi 53" .
  qed simp
  also have "\<dots> = 2 powi (e + 53)" by (simp add: add.commute)
  finally have "\<bar>x\<bar> < 2 powi (e + 53)" .
  with binade_bounds(1) [OF False] have "2 powi binade x < (2::real) powi (e + 53)"
    by (rule le_less_trans)
  then have "binade x < e + 53" by (rule two_powi_less_D)
  then have "ulp_exponent x \<le> e" using e by (simp add: ulp_exponent_def)
  then have "grid (ulp_exponent x) x = x" unfolding x by (rule grid_exact)
  then show ?thesis using False fin by (simp add: rnd_def overflow_def abs_if split: if_splits)
qed

subsection \<open>Representable values, underflow and overflow\<close>

lemma two_powi_abs [simp]: "\<bar>(2::real) powi a\<bar> = 2 powi a"
  by (simp add: abs_of_pos)

lemma two_powi_of_int_power: "(2::real) powi (int n) = of_int (2 ^ n)"
  by simp

lemma two_powi_53: "(2::real) powi 53 = of_int (2 ^ 53)"
  using two_powi_of_int_power [of 53] by simp

lemma two_powi_inverse: "inverse ((2::real) powi a) = 2 powi (- a)"
  by (simp add: power_int_minus)

lemma divide_two_powi: "x / (2::real) powi a = x * 2 powi (- a)"
  by (simp add: divide_inverse two_powi_inverse)

lemma rnd_power:
  assumes "- 1074 \<le> k" "k < 1024"
  shows "rnd (2 powi k) = Fin (2 powi k)"
  using assms by (intro rnd_exact [where m = 1 and e = k]) simp_all

lemma rnd_of_int:
  assumes "\<bar>n\<bar> < 2 ^ 53"
  shows "rnd (of_int n) = Fin (of_int n)"
proof (rule rnd_exact [where m = n and e = 0])
  have "\<bar>real_of_int n\<bar> = real_of_int \<bar>n\<bar>" by simp
  also have "\<dots> < real_of_int (2 ^ 53)" using assms by (simp only: of_int_less_iff)
  also have "\<dots> = 2 powi 53" by (simp only: two_powi_53)
  also have "\<dots> < 2 powi 1024" by simp
  finally show "\<bar>real_of_int n\<bar> < 2 powi 1024" .
qed (use assms in simp_all)

lemma rnd_numeral [simp]:
  "(numeral k :: int) < 2 ^ 53 \<Longrightarrow> rnd (numeral k) = Fin (numeral k)"
  using rnd_of_int [of "numeral k"] by simp

lemma rnd_neg_numeral [simp]:
  "(numeral k :: int) < 2 ^ 53 \<Longrightarrow> rnd (- numeral k) = Fin (- numeral k)"
  using rnd_of_int [of "- numeral k"] by simp

lemma rnd_one [simp]: "rnd 1 = Fin 1"
  using rnd_of_int [of 1] by simp

lemma rnd_neg_one [simp]: "rnd (- 1) = Fin (- 1)"
  using rnd_of_int [of "- 1"] by simp

lemma rnd_underflow:
  assumes "\<bar>x\<bar> < 2 powi (- 1075)"
  shows "rnd x = Fin 0"
proof (cases "x = 0")
  case True
  then show ?thesis by simp
next
  case False
  have "2 powi binade x < (2::real) powi (- 1075)"
    using binade_bounds(1) [OF False] assms by (rule le_less_trans)
  then have "binade x < - 1075" by (rule two_powi_less_D)
  then have e: "ulp_exponent x = - 1074" by (simp add: ulp_exponent_def)
  have "\<bar>x / 2 powi (- 1074)\<bar> = \<bar>x\<bar> * 2 powi 1074"
    by (simp add: divide_two_powi abs_mult)
  also have "\<dots> < 2 powi (- 1075) * 2 powi 1074"
    using assms by (intro mult_strict_right_mono) simp_all
  also have "\<dots> = 1 / 2" by (simp add: inverse_eq_divide)
  finally have "round_even (x / 2 powi (- 1074)) = 0"
    by (intro round_even_eqI) simp
  then show ?thesis using False e by (simp add: rnd_def grid_def overflow_def)
qed

lemma rnd_two_power_1024: "rnd (2 powi 1024) = PInf"
proof -
  have b: "binade (2 powi 1024) = 1024"
    by (rule binade_eqI) simp_all
  have "grid 972 (2 powi 1024) = 2 powi 1024" by (rule grid_power) simp
  then show ?thesis
    by (simp add: rnd_def ulp_exponent_def b overflow_def)
qed

lemma PInf_le_iff [simp]: "PInf \<le> d \<longleftrightarrow> d = PInf"
  by (cases d) simp_all

lemma le_NInf_iff [simp]: "d \<le> NInf \<longleftrightarrow> d = NInf"
  by (cases d) simp_all

lemma rnd_overflow: "2 powi 1024 \<le> x \<Longrightarrow> rnd x = PInf"
  using rnd_mono [of "2 powi 1024" x] by (simp add: rnd_two_power_1024)

lemma rnd_overflow_neg:
  assumes "x \<le> - (2 powi 1024)"
  shows "rnd x = NInf"
proof -
  have "rnd (- x) = PInf" using assms by (intro rnd_overflow) simp
  then show ?thesis by (cases "rnd x") (simp_all add: rnd_uminus)
qed

lemma rnd_idem:
  assumes "rnd x = Fin v"
  shows "rnd v = Fin v"
proof (cases "x = 0")
  case True
  with assms show ?thesis by auto
next
  case False
  let ?e = "ulp_exponent x"
  let ?n = "round_even (x / 2 powi ?e)"
  have v: "v = of_int ?n * 2 powi ?e" and fin: "\<bar>v\<bar> < 2 powi 1024"
    using assms False by (auto simp add: rnd_def grid_def overflow_def split: if_splits)
  have e: "- 1074 \<le> ?e" "binade x - 52 \<le> ?e" by (simp_all add: ulp_exponent_def)
  have "\<bar>x\<bar> < 2 powi (binade x + 1)" by (rule binade_bounds(2) [OF False])
  also have "\<dots> \<le> 2 powi (?e + 53)" using e(2) by simp
  finally have "\<bar>x\<bar> * 2 powi (- ?e) < 2 powi (?e + 53) * 2 powi (- ?e)"
    by (intro mult_strict_right_mono) simp_all
  then have "\<bar>x / 2 powi ?e\<bar> < 2 powi 53"
    by (simp add: divide_two_powi abs_mult)
  then have q: "real_of_int (- (2 ^ 53)) \<le> x / 2 powi ?e" "x / 2 powi ?e \<le> real_of_int (2 ^ 53)"
    unfolding two_powi_53 by (simp_all add: abs_if split: if_splits)
  have "round_even (real_of_int (- (2 ^ 53))) \<le> ?n" "?n \<le> round_even (real_of_int (2 ^ 53))"
    by (rule round_even_mono [OF q(1)]) (rule round_even_mono [OF q(2)])
  then have n: "- (2 ^ 53) \<le> ?n" "?n \<le> 2 ^ 53" by (simp_all only: round_even_of_int)
  consider "\<bar>?n\<bar> < 2 ^ 53" | "?n = 2 ^ 53" | "?n = - (2 ^ 53)" using n by linarith
  then show ?thesis
  proof cases
    case 1
    then show ?thesis using v e(1) fin by (intro rnd_exact [where m = ?n and e = ?e])
  next
    case 2
    then have "v = real_of_int (2 ^ 53) * 2 powi ?e" by (simp only: v)
    also have "\<dots> = of_int 1 * 2 powi (?e + 53)"
      by (simp only: two_powi_53 [symmetric] two_powi_mult) (simp add: add.commute)
    finally show ?thesis using e(1) fin
      by (intro rnd_exact [where m = 1 and e = "?e + 53"]) simp_all
  next
    case 3
    then have "v = real_of_int (- (2 ^ 53)) * 2 powi ?e" by (simp only: v)
    also have "\<dots> = - (real_of_int (2 ^ 53) * 2 powi ?e)" by simp
    also have "\<dots> = of_int (- 1) * 2 powi (?e + 53)"
      by (simp only: two_powi_53 [symmetric] two_powi_mult) (simp add: add.commute)
    finally show ?thesis using e(1) fin
      by (intro rnd_exact [where m = "- 1" and e = "?e + 53"]) simp_all
  qed
qed

lemma rnd_near_one:
  assumes "1 - 2 powi (- 54) < x" and "x \<le> 1"
  shows "rnd x = Fin 1"
proof (cases "x = 1")
  case True
  then show ?thesis by simp
next
  case False
  then have x1: "x < 1" using assms by simp
  have "(2::real) powi (- 54) \<le> 2 powi (- 1)"
    by (rule iffD2 [OF two_powi_le_iff]) simp
  also have "(2::real) powi (- 1) = 1 / 2" by (simp add: inverse_eq_divide)
  finally have lo: "1 / 2 \<le> x" using assms(1) by linarith
  have b: "binade x = - 1"
    using lo x1 by (intro binade_eqI) (simp_all add: inverse_eq_divide)
  have e: "ulp_exponent x = - 53" by (simp add: ulp_exponent_def b)
  have "(1 - x) * 2 powi 53 < 2 powi (- 54) * 2 powi 53"
    using assms(1) by (intro mult_strict_right_mono) simp_all
  also have "\<dots> = 1 / 2" by (simp add: inverse_eq_divide)
  finally have "\<bar>x * 2 powi 53 - real_of_int (2 ^ 53)\<bar> < 1 / 2"
    using x1 unfolding two_powi_53 [symmetric] by (simp add: abs_if algebra_simps)
  then have "round_even (x / 2 powi (- 53)) = 2 ^ 53"
    by (simp add: round_even_eqI divide_two_powi)
  then have "grid (- 53) x = real_of_int (2 ^ 53) * 2 powi (- 53)"
    by (simp add: grid_def)
  also have "\<dots> = 1" by (simp only: two_powi_53 [symmetric] two_powi_mult) simp
  finally have "grid (ulp_exponent x) x = 1" by (simp only: e)
  moreover have "overflow 1 = Fin 1" by (rule overflow_Fin) simp
  ultimately show ?thesis using lo by (simp add: rnd_def)
qed

subsection \<open>Order and sign of doubles\<close>


lemma double_less_imp_le: "a < b \<Longrightarrow> a \<le> (b::double)"
  by (cases a; cases b) simp_all

lemma double_le_not_less: "a \<le> b \<Longrightarrow> \<not> b < (a::double)"
  by (cases a; cases b) simp_all

lemma double_le_antisym: "a \<le> b \<Longrightarrow> \<not> a < b \<Longrightarrow> a = (b::double)"
  by (cases a; cases b) simp_all

lemma double_le_trans: "a \<le> b \<Longrightarrow> b \<le> c \<Longrightarrow> a \<le> (c::double)"
  by (cases a; cases b; cases c) simp_all

lemma double_less_le_trans: "a < b \<Longrightarrow> b \<le> c \<Longrightarrow> a < (c::double)"
  by (cases a; cases b; cases c) simp_all

lemma double_le_less_trans: "a \<le> b \<Longrightarrow> b < c \<Longrightarrow> a < (c::double)"
  by (cases a; cases b; cases c) simp_all

lemma double_linear: "a \<noteq> NaN \<Longrightarrow> b \<noteq> NaN \<Longrightarrow> a < b \<or> b \<le> (a::double)"
  by (cases a; cases b) auto

lemma not_negative_simps [simp]:
  "not_negative (Fin x) \<longleftrightarrow> 0 \<le> x" "not_negative PInf" "\<not> not_negative NInf" "not_negative NaN"
  by (auto simp add: not_negative_def)

lemma not_negative_rnd: "0 \<le> x \<Longrightarrow> not_negative (rnd x)"
  using rnd_mono [of 0 x] by (cases "rnd x") simp_all

lemma not_negative_pow_2 [simp]: "not_negative (pow_2 d)"
  by (cases d) (simp_all add: not_negative_rnd)

lemma not_negative_plus: "not_negative a \<Longrightarrow> not_negative b \<Longrightarrow> not_negative (a + b)"
  by (cases a; cases b) (simp_all add: not_negative_rnd)

lemma not_negative_sqrt: "not_negative a \<Longrightarrow> not_negative (sqrt_double a)"
  by (cases a) (simp_all add: not_negative_rnd)

lemma not_negative_fabs [simp]: "not_negative (fabs a)"
  by (cases a) simp_all

lemma not_negative_not_less: "not_negative a \<Longrightarrow> e \<le> Fin 0 \<Longrightarrow> \<not> a < e"
  by (cases a; cases e) auto

lemma not_negative_less: "not_negative a \<Longrightarrow> a < e \<Longrightarrow> Fin 0 < e"
  by (cases a; cases e) auto

lemma delta_not_negative: "not_negative (delta ctr i j)"
  unfolding delta_def by (intro not_negative_sqrt not_negative_plus) simp_all

lemma inf_or_nan_pow_2: "\<not> is_fin d \<Longrightarrow> inf_or_nan (pow_2 d)"
  by (cases d) (simp_all add: inf_or_nan_def)

lemma not_fin_minus_right: "\<not> is_fin b \<Longrightarrow> \<not> is_fin (a - b)"
  by (cases a; cases b) (simp_all add: minus_double_def)

lemma not_fin_minus_left: "\<not> is_fin a \<Longrightarrow> \<not> is_fin (a - b)"
  by (cases a; cases b) (simp_all add: minus_double_def)

lemma inf_or_nan_plus_left: "inf_or_nan a \<Longrightarrow> not_negative b \<Longrightarrow> inf_or_nan (a + b)"
  by (cases a; cases b) (simp_all add: inf_or_nan_def)

lemma inf_or_nan_plus_right: "not_negative a \<Longrightarrow> inf_or_nan b \<Longrightarrow> inf_or_nan (a + b)"
  by (cases a; cases b) (simp_all add: inf_or_nan_def)

lemma inf_or_nan_sqrt: "inf_or_nan a \<Longrightarrow> inf_or_nan (sqrt_double a)"
  by (cases a) (simp_all add: inf_or_nan_def)

lemma inf_or_nan_not_less: "inf_or_nan a \<Longrightarrow> \<not> a < e"
  by (cases a) (simp_all add: inf_or_nan_def)

subsection \<open>The loops of FindCluster and the leader rule\<close>

lemma minus_Fin [simp]: "Fin x - Fin y = rnd (x - y)"
  by (simp add: minus_double_def)

lemma pow_2_uminus [simp]: "pow_2 (- r) = pow_2 r"
  by (cases r) simp_all

lemma pow_2_fabs [simp]: "pow_2 (fabs r) = pow_2 r"
  by (cases r) simp_all

lemma delta_self:
  assumes "ctr ! i = (Fin x, Fin y, Fin z)"
  shows "delta ctr i i = Fin 0"
  using assms by (simp add: delta_def cell_def)

lemma delta_less_finite:
  assumes "delta ctr i j < e"
  obtains x y z where "ctr ! j = (Fin x, Fin y, Fin z)"
proof -
  obtain a b c where row: "ctr ! j = (a, b, c)" by (cases "ctr ! j") 
  let ?s0 = "pow_2 (cell ctr i 0 - cell ctr j 0)"
  let ?s1 = "pow_2 (cell ctr i 1 - cell ctr j 1)"
  let ?s2 = "pow_2 (cell ctr i 2 - cell ctr j 2)"
  have no: "\<not> inf_or_nan (?s0 + ?s1 + ?s2)"
    using assms inf_or_nan_not_less [OF inf_or_nan_sqrt] unfolding delta_def by blast
  have "is_fin a"
  proof (rule ccontr)
    assume "\<not> is_fin a"
    then have "inf_or_nan ?s0"
      using row by (intro inf_or_nan_pow_2 not_fin_minus_right) (simp add: cell_def)
    then have "inf_or_nan (?s0 + ?s1 + ?s2)"
      by (intro inf_or_nan_plus_left) simp_all
    with no show False ..
  qed
  moreover have "is_fin b"
  proof (rule ccontr)
    assume "\<not> is_fin b"
    then have "inf_or_nan ?s1"
      using row by (intro inf_or_nan_pow_2 not_fin_minus_right) (simp add: cell_def)
    then have "inf_or_nan (?s0 + ?s1 + ?s2)"
      by (intro inf_or_nan_plus_left inf_or_nan_plus_right) simp_all
    with no show False ..
  qed
  moreover have "is_fin c"
  proof (rule ccontr)
    assume "\<not> is_fin c"
    then have "inf_or_nan ?s2"
      using row by (intro inf_or_nan_pow_2 not_fin_minus_right) (simp add: cell_def)
    then have "inf_or_nan (?s0 + ?s1 + ?s2)"
      by (intro inf_or_nan_plus_right not_negative_plus) simp_all
    with no show False ..
  qed
  ultimately obtain x y z where "a = Fin x" "b = Fin y" "c = Fin z"
    by (cases a; cases b; cases c) simp_all
  with row that show thesis by simp
qed

lemma inner_loop_found: "inner_loop ctr e i j k True = k"
  by (simp add: inner_loop.simps)

lemma inner_loop_find:
  "j \<le> i \<Longrightarrow> inner_loop ctr e i j i False =
     (case find (\<lambda>k. delta ctr i k < e) [j..<i] of None \<Rightarrow> i | Some k \<Rightarrow> k)"
proof (induction "i - j" arbitrary: j)
  case 0
  then show ?case by (simp add: inner_loop.simps)
next
  case (Suc n)
  then have lt: "j < i" by simp
  then have upt: "[j..<i] = j # [Suc j..<i]" by (rule upt_conv_Cons)
  show ?case
  proof (cases "delta ctr i j < e")
    case True
    then show ?thesis using lt upt
      by (subst inner_loop.simps) (simp add: inner_loop_found)
  next
    case False
    have "inner_loop ctr e i (Suc j) i False =
          (case find (\<lambda>k. delta ctr i k < e) [Suc j..<i] of None \<Rightarrow> i | Some k \<Rightarrow> k)"
      using Suc.hyps(1) [of "Suc j"] Suc.hyps(2) lt by simp
    then show ?thesis using False lt upt
      by (subst inner_loop.simps) simp
  qed
qed

lemma inner_loop_spec_leader: "inner_loop ctr e i 0 i False = spec_leader ctr e i"
  by (simp add: inner_loop_find spec_leader_def)

lemma outer_loop_map:
  "i \<le> n \<Longrightarrow> length clus = n \<Longrightarrow>
     outer_loop ctr e n i clus =
       take i clus @ map (\<lambda>k. Fin (real (inner_loop ctr e k 0 k False))) [i..<n]"
proof (induction ctr e n i clus rule: outer_loop.induct)
  case (1 ctr e n i clus)
  show ?case
  proof (cases "i < n")
    case True
    let ?v = "Fin (real (inner_loop ctr e i 0 i False))"
    have "outer_loop ctr e n i clus = outer_loop ctr e n (i + 1) (clus[i := ?v])"
      using True by (subst outer_loop.simps) simp
    also have "\<dots> = take (i + 1) (clus[i := ?v])
                      @ map (\<lambda>k. Fin (real (inner_loop ctr e k 0 k False))) [i + 1..<n]"
      using "1.IH" [OF True] True "1.prems" by simp
    also have "take (i + 1) (clus[i := ?v]) = take i clus @ [?v]"
      using True "1.prems" by (simp add: take_Suc_conv_app_nth)
    finally show ?thesis using True by (simp add: upt_conv_Cons)
  next
    case False
    then show ?thesis using "1.prems" by (subst outer_loop.simps) simp
  qed
qed

lemma FindCluster_ID:
  "ID (FindCluster ctr e) = map (\<lambda>i. Fin (real (spec_leader ctr e i))) [0..<length ctr]"
  by (simp add: FindCluster_def outer_loop_map inner_loop_spec_leader)

lemma FindCluster_ID_nth:
  "i < length ctr \<Longrightarrow> ID (FindCluster ctr e) ! i = Fin (real (spec_leader ctr e i))"
  by (simp add: FindCluster_ID)

lemma FindCluster_ID_length: "length (ID (FindCluster ctr e)) = length ctr"
  by (simp add: FindCluster_ID)

lemma FindCluster_row:
  "l < length ctr \<Longrightarrow>
     (X (FindCluster ctr e) ! l, Y (FindCluster ctr e) ! l, Z (FindCluster ctr e) ! l) = ctr ! l"
  by (cases "ctr ! l") (simp add: FindCluster_def Let_def)

lemma spec_leader_le: "spec_leader ctr e i \<le> i"
  by (auto simp add: spec_leader_def find_Some_iff split: option.splits)

lemma spec_leader_unique:
  assumes "l \<le> i" and "l < i \<Longrightarrow> delta ctr i l < e" and "\<forall>k<l. \<not> delta ctr i k < e"
  shows "spec_leader ctr e i = l"
proof (cases "find (\<lambda>j. delta ctr i j < e) [0..<i]")
  case None
  then have "\<forall>j<i. \<not> delta ctr i j < e" by (auto simp add: find_None_iff)
  with assms(1,2) have "l = i" by (cases "l < i") auto
  with None show ?thesis by (simp add: spec_leader_def)
next
  case (Some j)
  then have j: "j < i" "delta ctr i j < e" "\<forall>k<j. \<not> delta ctr i k < e"
    by (auto simp add: find_Some_iff)
  have "\<not> j < l" using j(2) assms(3) by blast
  moreover have "\<not> l < j"
  proof
    assume "l < j"
    then have "l < i" "\<not> delta ctr i l < e" using j(1,3) by auto
    then show False using assms(2) by blast
  qed
  ultimately have "j = l" by simp
  with Some show ?thesis by (simp add: spec_leader_def)
qed

lemma spec_leader_first:
  assumes "spec_leader ctr e i < i"
  shows "delta ctr i (spec_leader ctr e i) < e
       \<and> (\<forall>k<spec_leader ctr e i. \<not> delta ctr i k < e)"
proof (cases "find (\<lambda>j. delta ctr i j < e) [0..<i]")
  case None
  then have "spec_leader ctr e i = i" by (simp add: spec_leader_def)
  with assms show ?thesis by simp
next
  case (Some j)
  then have "delta ctr i j < e" "\<forall>k<j. \<not> delta ctr i k < e"
    by (auto simp add: find_Some_iff)
  moreover have "spec_leader ctr e i = j" using Some by (simp add: spec_leader_def)
  ultimately show ?thesis by simp
qed

lemma spec_leader_self:
  assumes "spec_leader ctr e i = i"
  shows "\<forall>k<i. \<not> delta ctr i k < e"
proof (cases "find (\<lambda>j. delta ctr i j < e) [0..<i]")
  case None
  then show ?thesis by (auto simp add: find_None_iff)
next
  case (Some j)
  then have "j < i" by (auto simp add: find_Some_iff)
  moreover have "spec_leader ctr e i = j" using Some by (simp add: spec_leader_def)
  ultimately show ?thesis using assms by simp
qed

lemma spec_leader_coordinates_FindCluster:
  "spec_leader_coordinates (FindCluster ctr e)
     = map (\<lambda>i. ctr ! spec_leader ctr e i) [0..<length ctr]"
proof -
  have "spec_leader ctr e i < length ctr" if "i < length ctr" for i
    using that spec_leader_le [of ctr e i] by simp
  then show ?thesis
    by (simp add: spec_leader_coordinates_def FindCluster_ID FindCluster_row)
qed

lemma delta_spec_leader_coordinates:
  assumes "i < length ctr" "j < length ctr"
  shows "delta (spec_leader_coordinates (FindCluster ctr e)) i j
         = delta ctr (spec_leader ctr e i) (spec_leader ctr e j)"
  using assms by (simp add: spec_leader_coordinates_FindCluster delta_def cell_def)

subsection \<open>Small dyadic values\<close>

lemma two_powi_neg_numeral: "(2::real) powi (- numeral n) = 1 / 2 ^ numeral n"
  by (simp add: power_int_minus power_int_numeral inverse_eq_divide)

lemma rnd_exact_small:
  assumes x: "x = of_int m * 2 powi e"
    and m: "\<bar>m\<bar> < 2 ^ 53" and e: "- 1074 \<le> e" "e \<le> 970"
  shows "rnd x = Fin x"
proof (rule rnd_exact [OF x m e(1)])
  have "\<bar>x\<bar> = real_of_int \<bar>m\<bar> * 2 powi e" by (simp add: x abs_mult)
  also have "\<dots> \<le> real_of_int (2 ^ 53) * 2 powi e"
  proof (rule mult_right_mono)
    show "real_of_int \<bar>m\<bar> \<le> real_of_int (2 ^ 53)" using m by (simp only: of_int_le_iff)
  qed simp
  also have "\<dots> = 2 powi (e + 53)"
    by (simp only: two_powi_53 [symmetric] two_powi_mult) (simp add: add.commute)
  also have "\<dots> < 2 powi 1024" using e(2) by simp
  finally show "\<bar>x\<bar> < 2 powi 1024" .
qed

lemma rnd_half [simp]: "rnd (1 / 2) = Fin (1 / 2)"
  by (rule rnd_exact_small [where m = 1 and e = "- 1"]) (simp_all add: inverse_eq_divide)

lemma rnd_quarter [simp]: "rnd (1 / 4) = Fin (1 / 4)"
  by (rule rnd_exact_small [where m = 1 and e = "- 2"]) (simp_all add: two_powi_neg_numeral)

lemma sqrt_square_numeral: "0 \<le> x \<Longrightarrow> y = x * x \<Longrightarrow> sqrt y = x"
  by (simp add: real_sqrt_mult_self)

lemma rnd_three_fifths:
  "Fin (1 / 2) < rnd (3 / 5)" "\<not> Fin 1 < rnd (3 / 5)"
proof -
  have lo: "rnd (9 / 16) = Fin (9 / 16)"
    by (rule rnd_exact_small [where m = 9 and e = "- 4"]) (simp_all add: two_powi_neg_numeral)
  have "rnd (9 / 16) \<le> rnd (3 / 5)" by (rule rnd_mono) simp
  then have h: "Fin (9 / 16) \<le> rnd (3 / 5)" by (simp only: lo)
  show "Fin (1 / 2) < rnd (3 / 5)"
    by (rule double_less_le_trans [OF _ h]) simp
  have "rnd (3 / 5) \<le> rnd 1" by (rule rnd_mono) simp
  then have "rnd (3 / 5) \<le> Fin 1" by simp
  then show "\<not> Fin 1 < rnd (3 / 5)" by (rule double_le_not_less)
qed

subsection \<open>Absolute values and quotients\<close>

lemma fabs_uminus [simp]: "fabs (- a) = fabs a"
  by (cases a) simp_all

lemma fabs_not_negative: "not_negative a \<Longrightarrow> a \<noteq> NaN \<Longrightarrow> fabs a = a"
  by (cases a) simp_all

lemma rnd_not_NaN' [simp]: "NaN \<noteq> rnd x"
  using rnd_not_NaN [of x] by (simp add: eq_commute del: rnd_not_NaN)

lemma fabs_rnd: "fabs (rnd y) = rnd \<bar>y\<bar>"
proof (cases "0 \<le> y")
  case True
  then show ?thesis using not_negative_rnd [of y] by (simp add: fabs_not_negative)
next
  case False
  then have "not_negative (rnd (- y))" by (intro not_negative_rnd) simp
  then have "fabs (rnd (- y)) = rnd (- y)" by (simp add: fabs_not_negative)
  then show ?thesis using False by (simp add: rnd_uminus)
qed

lemma fabs_divide:
  assumes "0 < k"
  shows "fabs (a / Fin k) = fabs a / Fin k"
  using assms by (cases a) (simp_all add: fabs_rnd abs_divide)

lemma divide_Fin_mono:
  assumes "0 < k" and "x \<le> y"
  shows "Fin x / Fin k \<le> Fin y / Fin k"
  using assms by (simp add: rnd_mono divide_right_mono)

lemma std_min_divide:
  assumes k: "0 < k" and A: "not_negative A" and B: "not_negative B"
  shows "std_min (A / Fin k) (B / Fin k) = std_min A B / Fin k"
proof -
  consider "A = NaN" | "A \<noteq> NaN" "B = NaN" | x y where "A = Fin x" "B = Fin y"
    | x where "A = Fin x" "B = PInf" | y where "A = PInf" "B = Fin y" | "A = PInf" "B = PInf"
    using A B by (cases A; cases B) simp_all
  then show ?thesis
  proof cases
    case 1
    then show ?thesis by (simp add: std_min_def)
  next
    case 2
    then show ?thesis by (simp add: std_min_def)
  next
    case (3 x y)
    show ?thesis
    proof (cases "y < x")
      case True
      then have le: "Fin y / Fin k \<le> Fin x / Fin k" using k by (intro divide_Fin_mono) simp_all
      show ?thesis
      proof (cases "Fin y / Fin k < Fin x / Fin k")
        case T: True
        then show ?thesis using True 3 by (simp add: std_min_def)
      next
        case F: False
        with le have "Fin y / Fin k = Fin x / Fin k" by (rule double_le_antisym)
        then show ?thesis using True F 3 by (simp add: std_min_def)
      qed
    next
      case False
      then have "Fin x / Fin k \<le> Fin y / Fin k" using k by (intro divide_Fin_mono) simp_all
      then have "\<not> Fin y / Fin k < Fin x / Fin k" by (rule double_le_not_less)
      then show ?thesis using False 3 by (simp add: std_min_def)
    qed
  next
    case (4 x)
    then show ?thesis using k by (simp add: std_min_def)
  next
    case (5 y)
    then show ?thesis using k by (cases "rnd (y / k)") (simp_all add: std_min_def)
  next
    case 6
    then show ?thesis using k by (simp add: std_min_def)
  qed
qed

lemma finite_positive:
  assumes "Fin 0 < d" and "d < PInf"
  obtains k where "d = Fin k" and "0 < k"
  using assms by (cases d) simp_all

lemma rnd_exact_bits:
  assumes x: "x = of_int m * 2 powi e"
    and m: "\<bar>m\<bar> < 2 ^ n" and n: "n \<le> 53" and e: "- 1074 \<le> e" "e + int n \<le> 1024"
  shows "rnd x = Fin x"
proof (rule rnd_exact [OF x _ e(1)])
  have "(2::int) ^ n \<le> 2 ^ 53" using n by (intro power_increasing) simp_all
  then show "\<bar>m\<bar> < 2 ^ 53" using m by linarith
  have "\<bar>x\<bar> = real_of_int \<bar>m\<bar> * 2 powi e" by (simp add: x abs_mult)
  also have "\<dots> < real_of_int (2 ^ n) * 2 powi e"
  proof (rule mult_strict_right_mono)
    show "real_of_int \<bar>m\<bar> < real_of_int (2 ^ n)" using m by (simp only: of_int_less_iff)
  qed simp
  also have "\<dots> = 2 powi (e + int n)"
  proof -
    have "real_of_int (2 ^ n) = 2 powi int n" by simp
    then show ?thesis by (simp only: two_powi_mult add.commute)
  qed
  also have "\<dots> \<le> 2 powi 1024" using e(2) by simp
  finally show "\<bar>x\<bar> < 2 powi 1024" .
qed

lemma two_powi_numeral_eval: "(2::real) powi (numeral n) = 2 ^ numeral n"
  by (rule power_int_numeral)

lemma small_powers:
  "(2::real) = 2 powi 1" "(4::real) = 2 powi 2" "(8::real) = 2 powi 3" "(16::real) = 2 powi 4"
  "(32::real) = 2 powi 5"
  by (simp_all add: two_powi_numeral_eval)

lemma div_small:
  "(2::real) powi k / 2 = 2 powi (k - 1)" "(2::real) powi k / 4 = 2 powi (k - 2)"
  "(2::real) powi k / 8 = 2 powi (k - 3)"
  "2 * (2::real) powi k = 2 powi (k + 1)" "4 * (2::real) powi k = 2 powi (k + 2)"
  "8 * (2::real) powi k = 2 powi (k + 3)" "16 * (2::real) powi k = 2 powi (k + 4)"
  "32 * (2::real) powi k = 2 powi (k + 5)"
proof -
  show "(2::real) powi k / 2 = 2 powi (k - 1)"
    using two_powi_divide [of k 1] by simp
  show "(2::real) powi k / 4 = 2 powi (k - 2)"
    using two_powi_divide [of k 2] by (simp add: small_powers(2) [symmetric])
  show "(2::real) powi k / 8 = 2 powi (k - 3)"
    using two_powi_divide [of k 3] by (simp add: small_powers(3) [symmetric])
  show "2 * (2::real) powi k = 2 powi (k + 1)"
    using two_powi_mult [of 1 k] by (simp add: add.commute)
  show "4 * (2::real) powi k = 2 powi (k + 2)"
    using two_powi_mult [of 2 k] by (simp add: small_powers(2) [symmetric] add.commute)
  show "8 * (2::real) powi k = 2 powi (k + 3)"
    using two_powi_mult [of 3 k] by (simp add: small_powers(3) [symmetric] add.commute)
  show "16 * (2::real) powi k = 2 powi (k + 4)"
    using two_powi_mult [of 4 k] by (simp add: small_powers(4) [symmetric] add.commute)
  show "32 * (2::real) powi k = 2 powi (k + 5)"
    using two_powi_mult [of 5 k] by (simp add: small_powers(5) [symmetric] add.commute)
qed

lemma rnd_neg_power:
  assumes "- 1074 \<le> k" "k < 1024"
  shows "rnd (- (2 powi k)) = Fin (- (2 powi k))"
  using assms by (simp add: rnd_uminus rnd_power)

subsection \<open>The window of the cylinder\<close>


lemma pow_2_Fin_zero [simp]: "pow_2 (Fin 0) = Fin 0"
  by simp



lemma divide_representable:
  assumes "a / b = Fin v"
  shows "rnd v = Fin v"
  using assms by (cases a; cases b) (auto intro: rnd_idem split: if_splits)

subsection \<open>The exponential on nonpositive arguments\<close>

lemma nn_simps [simp]: "nn (Fin v) \<longleftrightarrow> 0 \<le> v" "nn PInf" "\<not> nn NInf" "\<not> nn NaN"
  by (simp_all add: nn_def)

lemma np_simps [simp]: "np (Fin v) \<longleftrightarrow> v \<le> 0" "\<not> np PInf" "np NInf" "\<not> np NaN"
  by (simp_all add: np_def)

lemma rnd_le_PInf [simp]: "rnd x \<le> PInf"
  using rnd_not_NaN [of x] by (cases "rnd x") simp_all

lemma NInf_le_rnd [simp]: "NInf \<le> rnd x"
  using rnd_not_NaN [of x] by (cases "rnd x") simp_all

lemma nn_rnd: "0 \<le> x \<Longrightarrow> nn (rnd x)"
  using not_negative_rnd [of x] by (cases "rnd x") simp_all

lemma np_rnd: "x \<le> 0 \<Longrightarrow> np (rnd x)"
  using nn_rnd [of "- x"] by (cases "rnd x") (simp_all add: rnd_uminus)

lemma nn_pow_2_minus: "nn (pow_2 (Fin a - Fin b))"
  by (cases "rnd (a - b)") (simp_all add: nn_rnd)

lemma nn_plus: "nn a \<Longrightarrow> nn b \<Longrightarrow> nn (a + b)"
  by (cases a; cases b) (simp_all add: nn_rnd)

lemma nn_sqrt: "nn a \<Longrightarrow> nn (sqrt_double a)"
  by (cases a) (simp_all add: nn_rnd)

lemma nn_distance:
  "nn (sqrt_double (pow_2 (Fin px - Fin cx) + pow_2 (Fin py - Fin cy)))"
  by (intro nn_sqrt nn_plus nn_pow_2_minus)

lemma nn_divide: "0 < k \<Longrightarrow> nn a \<Longrightarrow> nn (a / Fin k)"
  by (cases a) (simp_all add: nn_rnd)

lemma nn_divide_mono: "0 < k \<Longrightarrow> nn a \<Longrightarrow> nn b \<Longrightarrow> a \<le> b \<Longrightarrow> a / Fin k \<le> b / Fin k"
  by (cases a; cases b) (simp_all add: rnd_mono divide_right_mono)

lemma nn_pow_2: "nn a \<Longrightarrow> nn (pow_2 a)"
  by (cases a) (simp_all add: nn_rnd)

lemma nn_pow_2_mono: "nn a \<Longrightarrow> nn b \<Longrightarrow> a \<le> b \<Longrightarrow> pow_2 a \<le> pow_2 b"
  by (cases a; cases b) (simp_all add: rnd_mono mult_mono)

lemma np_times: "nn a \<Longrightarrow> np (Fin (- 5) * a)"
  by (cases a) (simp_all add: np_rnd)

lemma np_times_antimono: "nn a \<Longrightarrow> nn b \<Longrightarrow> a \<le> b \<Longrightarrow> Fin (- 5) * b \<le> Fin (- 5) * a"
  by (cases a; cases b) (simp_all add: rnd_mono)

lemma exp_double_range: "np a \<Longrightarrow> Fin 0 \<le> exp_double a \<and> exp_double a \<le> Fin 1"
proof (cases a)
  case (Fin x)
  assume "np a"
  then have "x \<le> 0" using Fin by simp
  then have "rnd 0 \<le> rnd (exp x)" "rnd (exp x) \<le> rnd 1"
    by (intro rnd_mono; simp)+
  then show ?thesis using Fin by simp
qed simp_all

lemma exp_double_mono: "np a \<Longrightarrow> np b \<Longrightarrow> a \<le> b \<Longrightarrow> exp_double a \<le> exp_double b"
proof (cases a; cases b)
  fix y assume "np b" "a = NInf" "b = Fin y"
  then have "rnd 0 \<le> rnd (exp y)" by (intro rnd_mono) simp
  then show "exp_double a \<le> exp_double b" using \<open>a = NInf\<close> \<open>b = Fin y\<close> by simp
qed (simp_all add: rnd_mono)

lemma exp_double_underflow:
  assumes "x \<le> - 1076"
  shows "exp_double (Fin x) = Fin 0"
proof -
  have "(2::real) ^ 1076 \<le> exp 1 ^ 1076"
    using exp_ge_add_one_self [of 1] by (intro power_mono) simp_all
  also have "\<dots> = exp 1076" using exp_of_nat_mult [of 1076 "1::real"] by simp
  finally have "inverse (exp 1076) \<le> inverse ((2::real) ^ 1076)"
    by (intro le_imp_inverse_le) simp_all
  moreover have "inverse ((2::real) ^ 1076) = 2 powi (- 1076)"
    by (simp only: power_int_numeral [symmetric] two_powi_inverse)
  moreover have "exp x \<le> exp (- 1076)" using assms by simp
  moreover have "exp (- 1076) = inverse (exp (1076::real))" by (rule exp_minus)
  moreover have "(2::real) powi (- 1076) < 2 powi (- 1075)" by simp
  ultimately have "exp x < 2 powi (- 1075)" by linarith
  then have "\<bar>exp x\<bar> < 2 powi (- 1075)" by simp
  then show ?thesis by (simp add: rnd_underflow)
qed

lemma exp_double_near_one:
  assumes "0 \<le> t" and "t < 2 powi (- 54)"
  shows "exp_double (Fin (- t)) = Fin 1"
proof -
  have "1 + (- t) \<le> exp (- t)" by (rule exp_ge_add_one_self)
  then have "1 - 2 powi (- 54) < exp (- t)" using assms(2) by linarith
  moreover have "exp (- t) \<le> 1" using assms(1) by simp
  ultimately show ?thesis by (simp add: rnd_near_one)
qed

subsection \<open>Evaluating a rounding; a rounding error at the peak of the vertical kernel\<close>

lemma round_even_tie:
  assumes "x = of_int m + 1 / 2"
  shows "round_even x = (if even m then m else m + 1)"
proof -
  have "\<lfloor>x\<rfloor> = m" unfolding assms by (rule floor_unique) simp_all
  then show ?thesis by (simp add: round_even_def Let_def assms)
qed

lemma rnd_eval:
  assumes lo: "2 powi b \<le> \<bar>x\<bar>" and hi: "\<bar>x\<bar> < 2 powi (b + 1)"
    and e: "e = max (b - 52) (- 1074)"
    and n: "round_even (x / 2 powi e) = n"
    and fin: "\<bar>of_int n * 2 powi e\<bar> < (2::real) powi 1024"
  shows "rnd x = Fin (of_int n * 2 powi e)"
proof -
  have "0 < \<bar>x\<bar>" using lo two_powi_pos(1) [of b] by linarith
  then have x: "x \<noteq> 0" by simp
  have "binade x = b" using lo hi by (rule binade_eqI)
  then have "ulp_exponent x = e" by (simp add: ulp_exponent_def e)
  then have "grid (ulp_exponent x) x = of_int n * 2 powi e"
    by (simp only: grid_def n)
  then show ?thesis using x fin by (simp add: rnd_def overflow_Fin)
qed

lemma two_plus_ulp: "rnd (2 + 2 powi (- 52)) = Fin 2"
proof -
  let ?x = "2 + (2::real) powi (- 52)"
  have p: "(2::real) powi (- 52) < 2 powi 1" by (rule iffD2 [OF two_powi_less_iff]) simp
  have two: "(2::real) powi 1 = 2" by simp
  have pos: "\<bar>?x\<bar> = ?x" by (rule abs_of_pos) (simp add: add_pos_pos)
  have lo: "2 powi 1 \<le> \<bar>?x\<bar>" unfolding pos by (simp add: two)
  have "?x < 2 + 2" using p by (simp only: two add_strict_left_mono)
  also have "\<dots> = 2 powi (1 + 1)" using two_powi_mult [of 1 1] by simp
  finally have hi: "\<bar>?x\<bar> < 2 powi (1 + 1)" unfolding pos .
  have "?x / 2 powi (- 51) = 2 powi 1 * 2 powi 51 + 2 powi (- 52) * 2 powi 51"
    by (simp only: divide_two_powi two distrib_right) simp
  also have "\<dots> = 2 powi 52 + 2 powi (- 1)" by (simp only: two_powi_mult) simp
  also have "\<dots> = real_of_int (2 ^ 52) + 1 / 2"
    using two_powi_of_int_power [of 52] by (simp add: inverse_eq_divide)
  finally have eq: "?x / 2 powi (- 51) = real_of_int (2 ^ 52) + 1 / 2" .
  have "round_even (?x / 2 powi (- 51)) = (if even ((2::int) ^ 52) then 2 ^ 52 else 2 ^ 52 + 1)"
    by (rule round_even_tie [OF eq])
  then have "round_even (?x / 2 powi (- 51)) = 2 ^ 52" by simp
  moreover have "real_of_int (2 ^ 52) * 2 powi (- 51) = 2"
  proof -
    have "real_of_int (2 ^ 52) = 2 powi 52" using two_powi_of_int_power [of 52] by simp
    then show ?thesis by (simp only: two_powi_mult) simp
  qed
  moreover have "\<bar>2::real\<bar> < 2 powi 1024"
    using two_powi_less_iff [of 1 1024] by (simp only: two) simp
  ultimately show ?thesis
    using rnd_eval [OF lo hi, of "- 51" "2 ^ 52"] by simp
qed

lemma rnd_two_thirds: "rnd (2 / 3) < Fin 1" "Fin 0 < rnd (2 / 3)"
proof -
  have a: "rnd (3 / 4) = Fin (3 / 4)"
    by (rule rnd_exact_small [where m = 3 and e = "- 2"]) (simp_all add: two_powi_neg_numeral)
  have "rnd (2 / 3) \<le> rnd (3 / 4)" by (rule rnd_mono) simp
  then have "rnd (2 / 3) \<le> Fin (3 / 4)" by (simp only: a)
  then show "rnd (2 / 3) < Fin 1" by (rule double_le_less_trans) simp
  have "rnd (1 / 2) \<le> rnd (2 / 3)" by (rule rnd_mono) simp
  then have h: "Fin (1 / 2) \<le> rnd (2 / 3)" by simp
  show "Fin 0 < rnd (2 / 3)" by (rule double_less_le_trans [OF _ h]) simp
qed

lemma VerticalDistance_at_peak_rounding:
  "VerticalDistance (Fin (2 powi (- 49))) (Fin (2 - 3 * 2 powi (- 52)))
     (Fin (2 - 3 * 2 powi (- 52)) + Fin (2 powi (- 49)) / Fin 8) = rnd (2 / 3)"
  "is_double (Fin (2 powi (- 49)))" "is_double (Fin (2 - 3 * 2 powi (- 52)))"
  "Fin (2 - 3 * 2 powi (- 52)) + Fin (2 powi (- 49)) / Fin 8 = Fin (2 - 2 * 2 powi (- 52))"
  "Fin (2 - 3 * 2 powi (- 52)) + Fin (2 powi (- 49)) / Fin 2 = Fin 2"
  "VerticalDistance (Fin (2 powi (- 49))) (Fin (2 - 3 * 2 powi (- 52)))
     (Fin (2 - 3 * 2 powi (- 52)) + Fin (2 powi (- 49)) / Fin 8) < Fin 1"
proof -
  define u :: real where "u = 2 powi (- 52)"
  have u: "0 < u" by (simp add: u_def)
  have two: "2 = real_of_int (2 ^ 53) * u"
  proof -
    have "real_of_int (2 ^ 53) = 2 powi 53" by (simp only: two_powi_53)
    then show ?thesis unfolding u_def by (simp only: two_powi_mult) simp
  qed
  have rep: "rnd (of_int m * u) = Fin (of_int m * u)" if "\<bar>m\<bar> < 2 ^ 53" for m
    unfolding u_def using that by (intro rnd_exact_small [where m = m and e = "- 52"]) simp_all
  have h: "2 powi (- 49) = 8 * u" unfolding u_def by (simp add: div_small)
  have pw: "rnd (8 * u) = Fin (8 * u)" "rnd (4 * u) = Fin (4 * u)"
    "rnd (2 * u) = Fin (2 * u)" "rnd u = Fin u" "rnd (24 * u) = Fin (24 * u)"
    "rnd (3 * u) = Fin (3 * u)" "rnd (- (3 * u)) = Fin (- (3 * u))"
    using rep [of 8] rep [of 4] rep [of 2] rep [of 1] rep [of 24] rep [of 3] rep [of "- 3"]
    by simp_all
  have c: "2 - 3 * u = real_of_int (2 ^ 53 - 3) * u" "2 - 5 * u = real_of_int (2 ^ 53 - 5) * u"
    "2 - 2 * u = real_of_int (2 ^ 53 - 2) * u"
    using two by (simp_all add: algebra_simps)
  have cr: "rnd (2 - 3 * u) = Fin (2 - 3 * u)" "rnd (2 - 5 * u) = Fin (2 - 5 * u)"
    "rnd (2 - 2 * u) = Fin (2 - 2 * u)"
    unfolding c by (rule rep; simp)+
  have tie: "rnd (2 + u) = Fin 2" unfolding u_def by (rule two_plus_ulp)
  have pz: "Fin (2 - 3 * u) + Fin (8 * u) / Fin 8 = Fin (2 - 2 * u)"
  proof -
    have "2 - 3 * u + u = 2 - 2 * u" by simp
    then show ?thesis by (simp add: pw cr)
  qed
  have top: "Fin (2 - 3 * u) + Fin (8 * u) / Fin 2 = Fin 2"
  proof -
    have "Fin (8 * u) / Fin 2 = Fin (4 * u)" by (simp add: pw)
    moreover have "Fin (2 - 3 * u) + Fin (4 * u) = rnd (2 - 3 * u + 4 * u)" by simp
    moreover have "2 - 3 * u + 4 * u = 2 + u" by simp
    ultimately show ?thesis by (simp only: tie)
  qed
  have bottom: "Fin (2 - 3 * u) - Fin (8 * u) / Fin 4 = Fin (2 - 5 * u)"
  proof -
    have "2 - 3 * u - 2 * u = 2 - 5 * u" by simp
    then show ?thesis by (simp add: pw cr)
  qed
  have k: "Fin 3 * Fin (8 * u) / Fin 8 = Fin (3 * u)" by (simp add: pw)
  have b: "Fin (2 - 5 * u) - Fin (2 - 2 * u) = Fin (- (3 * u))"
  proof -
    have "2 - 5 * u - (2 - 2 * u) = - (3 * u)" by simp
    then show ?thesis by (simp add: pw)
  qed
  have t: "Fin 2 - Fin (2 - 2 * u) = Fin (2 * u)"
  proof -
    have "2 - (2 - 2 * u) = 2 * u" by simp
    then show ?thesis by (simp add: pw)
  qed
  have q: "Fin (- (3 * u)) / Fin (3 * u) = Fin (- 1)" "Fin (2 * u) / Fin (3 * u) = rnd (2 / 3)"
    using u by simp_all
  have f: "fabs (rnd (2 / 3)) = rnd (2 / 3)" by (simp add: fabs_rnd)
  have "VerticalDistance (Fin (8 * u)) (Fin (2 - 3 * u)) (Fin (2 - 3 * u) + Fin (8 * u) / Fin 8)
          = rnd (2 / 3)"
    unfolding VerticalDistance_def Let_def pz top bottom k b t q f
    using rnd_two_thirds(1) by (simp add: std_min_def)
  then show vd: "VerticalDistance (Fin (2 powi (- 49))) (Fin (2 - 3 * 2 powi (- 52)))
     (Fin (2 - 3 * 2 powi (- 52)) + Fin (2 powi (- 49)) / Fin 8) = rnd (2 / 3)"
    unfolding h unfolding u_def .
  show "VerticalDistance (Fin (2 powi (- 49))) (Fin (2 - 3 * 2 powi (- 52)))
     (Fin (2 - 3 * 2 powi (- 52)) + Fin (2 powi (- 49)) / Fin 8) < Fin 1"
    unfolding vd by (rule rnd_two_thirds(1))
  show "is_double (Fin (2 powi (- 49)))" by (simp add: is_double_def rnd_power)
  show "is_double (Fin (2 - 3 * 2 powi (- 52)))"
    using cr(1) by (simp add: is_double_def u_def)
  show "Fin (2 - 3 * 2 powi (- 52)) + Fin (2 powi (- 49)) / Fin 8 = Fin (2 - 2 * 2 powi (- 52))"
    using pz unfolding h unfolding u_def .
  show "Fin (2 - 3 * 2 powi (- 52)) + Fin (2 powi (- 49)) / Fin 2 = Fin 2"
    using top unfolding h unfolding u_def .
qed

section \<open>The properties of the specification\<close>

subsection \<open>FindCluster: the leader rule\<close>

text \<open>
  C1, with the distance read as the exact Euclidean distance, fails: the code
  compares the distance as it computes it. The centroids \<open>(0, 0, 0)\<close> and
  \<open>(2^(-600), 0, 0)\<close> are \<open>2^(-600)\<close> apart, which is not below
  \<open>epsilon = 2^(-1000)\<close>; but the square \<open>2^(-1200)\<close> underflows to \<open>0\<close>, the computed
  \<^verbatim>\<open>delta\<close> is \<open>0\<close>, and the second centroid gets the id \<open>0\<close>.
\<close>

theorem FindCluster_exact_distance_counterexample:
  "ID (FindCluster [(Fin 0, Fin 0, Fin 0), (Fin (2 powi (- 600)), Fin 0, Fin 0)]
         (Fin (2 powi (- 1000)))) ! 1 = Fin 0
   \<and> \<not> sqrt ((2 powi (- 600) - 0)\<^sup>2 + (0 - 0)\<^sup>2 + (0 - 0)\<^sup>2) < (2::real) powi (- 1000)"
proof -
  let ?c = "[(Fin 0, Fin 0, Fin 0), (Fin (2 powi (- 600)), Fin 0, Fin 0)] :: NumericMatrix"
  have a: "rnd (2 powi (- 600)) = Fin (2 powi (- 600))" by (rule rnd_power) simp_all
  have b: "rnd (2 powi (- 1200)) = Fin 0" by (rule rnd_underflow) simp
  have "delta ?c 1 0 = Fin 0" by (simp add: delta_def cell_def a b)
  then have "spec_leader ?c (Fin (2 powi (- 1000))) 1 = 0"
    by (intro spec_leader_unique) simp_all
  then have "ID (FindCluster ?c (Fin (2 powi (- 1000)))) ! 1 = Fin 0"
    by (simp add: FindCluster_ID_nth)
  then show ?thesis by simp
qed

text \<open>
  C1, amended. For every matrix of \<open>n\<close> centroids and every \<open>epsilon\<close>, \<^verbatim>\<open>FindCluster\<close>
  returns one id per centroid, in input order, and the id of the centroid \<open>i\<close> is the
  smallest \<open>j < i\<close> whose distance to \<open>i\<close>, as computed in double arithmetic (the
  rounded square root of the rounded sum of the rounded squares of the three rounded
  coordinate differences), is strictly below \<open>epsilon\<close>: the first match of the scan
  \<open>j = 0, 1, \<dots> \<close>. When no \<open>j < i\<close> is that close, the id is \<open>i\<close> itself. Row \<open>i\<close> of
  the table carries the coordinates of the centroid \<open>i\<close>.
\<close>

theorem FindCluster_first_match:
  assumes "i < length ctr"
  shows "(let d = (\<lambda>j. sqrt_double
                  (pow_2 (fst (ctr ! i) - fst (ctr ! j))
                   + pow_2 (fst (snd (ctr ! i)) - fst (snd (ctr ! j)))
                   + pow_2 (snd (snd (ctr ! i)) - snd (snd (ctr ! j)))))
          in (\<forall>j. j < i \<and> d j < epsilon \<and> (\<forall>k<j. \<not> d k < epsilon)
                  \<longrightarrow> ID (FindCluster ctr epsilon) ! i = Fin (real j))
           \<and> ((\<forall>j<i. \<not> d j < epsilon)
                  \<longrightarrow> ID (FindCluster ctr epsilon) ! i = Fin (real i)))
       \<and> length (ID (FindCluster ctr epsilon)) = length ctr
       \<and> (X (FindCluster ctr epsilon) ! i, Y (FindCluster ctr epsilon) ! i,
          Z (FindCluster ctr epsilon) ! i) = ctr ! i"
proof -
  have d: "delta ctr i j = sqrt_double
                  (pow_2 (fst (ctr ! i) - fst (ctr ! j))
                   + pow_2 (fst (snd (ctr ! i)) - fst (snd (ctr ! j)))
                   + pow_2 (snd (snd (ctr ! i)) - snd (snd (ctr ! j))))" for j
    by (cases "ctr ! i"; cases "ctr ! j") (simp add: delta_def cell_def)
  show ?thesis
    unfolding Let_def d [symmetric] using assms
    by (auto simp add: FindCluster_ID_nth FindCluster_ID_length FindCluster_row
        intro!: spec_leader_unique)
qed

text \<open>
  C1, an instance: \<open>(0, 0, 0)\<close> and \<open>(3, 4, 12)\<close> are \<open>13\<close> apart. With \<open>epsilon = 14\<close>
  the second centroid joins the first, with \<open>epsilon = 13\<close> it stays alone.
\<close>

theorem FindCluster_first_match_witness:
  "ID (FindCluster [(Fin 0, Fin 0, Fin 0), (Fin 3, Fin 4, Fin 12)] (Fin 14)) ! 1 = Fin 0
   \<and> ID (FindCluster [(Fin 0, Fin 0, Fin 0), (Fin 3, Fin 4, Fin 12)] (Fin 13)) ! 1 = Fin 1"
proof -
  let ?c = "[(Fin 0, Fin 0, Fin 0), (Fin 3, Fin 4, Fin 12)] :: NumericMatrix"
  have s: "sqrt 169 = 13" by (rule sqrt_square_numeral) simp_all
  have len: "1 < length ?c" by simp
  have "ID (FindCluster ?c (Fin 14)) ! 1 = Fin (real 0)"
    using FindCluster_first_match [OF len, of "Fin 14"] s by (simp add: Let_def)
  moreover have "ID (FindCluster ?c (Fin 13)) ! 1 = Fin (real 1)"
    using FindCluster_first_match [OF len, of "Fin 13"] s by (simp add: Let_def)
  ultimately show ?thesis by simp
qed

subsection \<open>The vertical kernel: window and profile\<close>

text \<open>
  C2, with its formulas read in exact arithmetic, fails. At the height \<open>2^1023\<close> with
  the centre and the point at \<open>0\<close>, the point is inside the window and
  \<open>1 - (1 - d)\<^sup>2\<close> with \<open>d = min (|cz - h/4 - pz|, |cz + h/2 - pz|) / (3h/8)\<close> is \<open>8/9\<close>.
  In the code \<^verbatim>\<open>3.0*Height\<close> overflows to an infinity, both quotients are \<open>0\<close>, and the
  weight is \<open>0\<close>.
\<close>

theorem EpanechnikovFunction_exact_profile_counterexample:
  "EpanechnikovFunction (Fin (2 powi 1023)) (Fin 0) (Fin 0) = Fin 0
   \<and> (0 - 2 powi 1023 / 4 \<le> (0::real) \<and> (0::real) \<le> 0 + 2 powi 1023 / 2)
   \<and> 1 - (1 - min \<bar>0 - 2 powi 1023 / 4 - 0\<bar> \<bar>0 + 2 powi 1023 / 2 - 0\<bar> / (3 * 2 powi 1023 / 8))\<^sup>2
       = (8 / 9 :: real)"
proof -
  have q: "rnd (2 powi 1021) = Fin (2 powi 1021)" "rnd (2 powi 1022) = Fin (2 powi 1022)"
    "rnd (- (2 powi 1021)) = Fin (- (2 powi 1021))"
    by (simp_all add: rnd_power rnd_neg_power)
  have "(2::real) powi 1024 = 2 * 2 powi 1023" by (simp add: div_small)
  also have "\<dots> \<le> 3 * 2 powi 1023" by simp
  finally have o: "rnd (3 * 2 powi 1023) = PInf" by (rule rnd_overflow)
  have vd: "VerticalDistance (Fin (2 powi 1023)) (Fin 0) (Fin 0) = Fin 0"
    by (simp add: VerticalDistance_def div_small q o std_min_def)
  have code: "EpanechnikovFunction (Fin (2 powi 1023)) (Fin 0) (Fin 0) = Fin 0"
    by (simp add: EpanechnikovFunction_def vd div_small q)
  define a :: real where "a = 2 powi 1020"
  have a: "0 < a" "(2::real) powi 1023 = 8 * a" by (simp_all add: a_def div_small)
  have "1 - (1 - min \<bar>0 - 2 powi 1023 / 4 - 0\<bar> \<bar>0 + 2 powi 1023 / 2 - 0\<bar>
                  / (3 * 2 powi 1023 / 8))\<^sup>2 = (8 / 9 :: real)"
    unfolding a(2) using a(1) by (simp add: min_def power2_eq_square)
  then show ?thesis using code by (simp add: div_small)
qed

text \<open>
  C2, amended. When the window test \<open>cz - h/4 \<le> pz \<le> cz + h/2\<close>, evaluated in
  double arithmetic, fails, the vertical kernel weight is \<open>0\<close>. When it holds, the
  weight is \<open>1 - (1 - d)\<^sup>2\<close> evaluated in double arithmetic, where \<open>d\<close> is the value
  of \<^verbatim>\<open>VerticalDistance\<close>. Whenever the computed divisor \<open>3h/8\<close> is positive and
  finite, \<^verbatim>\<open>VerticalDistance\<close> is
  \<open>min (|cz - h/4 - pz|, |cz + h/2 - pz|) / (3h/8)\<close>, every operation in double
  arithmetic (the code takes the absolute value of each quotient, which is the same
  double as the quotient of the absolute value).
\<close>

theorem EpanechnikovFunction_window_and_profile:
  "(\<not> (cz - h / Fin 4 \<le> pz \<and> pz \<le> cz + h / Fin 2) \<longrightarrow> EpanechnikovFunction h cz pz = Fin 0)
   \<and> (cz - h / Fin 4 \<le> pz \<and> pz \<le> cz + h / Fin 2 \<longrightarrow>
        EpanechnikovFunction h cz pz = Fin 1 - pow_2 (Fin 1 - VerticalDistance h cz pz))
   \<and> (Fin 0 < Fin 3 * h / Fin 8 \<and> Fin 3 * h / Fin 8 < PInf \<longrightarrow>
        VerticalDistance h cz pz =
          std_min (fabs (cz - h / Fin 4 - pz)) (fabs (cz + h / Fin 2 - pz)) / (Fin 3 * h / Fin 8))"
proof -
  have "VerticalDistance h cz pz =
          std_min (fabs (cz - h / Fin 4 - pz)) (fabs (cz + h / Fin 2 - pz)) / (Fin 3 * h / Fin 8)"
    if pos: "Fin 0 < Fin 3 * h / Fin 8" and fin: "Fin 3 * h / Fin 8 < PInf"
  proof -
    obtain k where k: "Fin 3 * h / Fin 8 = Fin k" "0 < k"
      by (rule finite_positive [OF pos fin])
    show ?thesis
      unfolding VerticalDistance_def Let_def k(1)
      by (simp only: fabs_divide [OF k(2)] std_min_divide [OF k(2)] not_negative_fabs)
  qed
  then show ?thesis by (auto simp add: EpanechnikovFunction_def)
qed

text \<open>
  C2, an instance. At height \<open>8\<close> and centre \<open>0\<close> the window is \<open>[-2, 4]\<close>: the point
  \<open>100\<close> is outside, the point \<open>1\<close> is inside at distance \<open>1\<close> with the weight \<open>1\<close>, and
  the lower edge \<open>-2\<close> is inside at distance \<open>0\<close> with the weight \<open>0\<close>.
\<close>

theorem EpanechnikovFunction_window_and_profile_witness:
  "EpanechnikovFunction (Fin 8) (Fin 0) (Fin 100) = Fin 0
   \<and> EpanechnikovFunction (Fin 8) (Fin 0) (Fin 1) = Fin 1
   \<and> VerticalDistance (Fin 8) (Fin 0) (Fin 1) = Fin 1
   \<and> EpanechnikovFunction (Fin 8) (Fin 0) (Fin (- 2)) = Fin 0"
proof -
  have v: "VerticalDistance (Fin 8) (Fin 0) (Fin 1) = Fin 1"
    using EpanechnikovFunction_window_and_profile [of "Fin 0" "Fin 8" "Fin 1"]
    by (simp add: std_min_def)
  have w: "VerticalDistance (Fin 8) (Fin 0) (Fin (- 2)) = Fin 0"
    using EpanechnikovFunction_window_and_profile [of "Fin 0" "Fin 8" "Fin (- 2)"]
    by (simp add: std_min_def)
  show ?thesis
    using EpanechnikovFunction_window_and_profile [of "Fin 0" "Fin 8" "Fin 100"]
      EpanechnikovFunction_window_and_profile [of "Fin 0" "Fin 8" "Fin 1"]
      EpanechnikovFunction_window_and_profile [of "Fin 0" "Fin 8" "Fin (- 2)"] v w
    by (simp add: std_min_def)
qed

subsection \<open>Membership in the cylinder\<close>




subsection \<open>The horizontal kernel: formula\<close>




subsection \<open>The vertical kernel at its peak\<close>

text \<open>
  C5, as the claim states it, fails: at \<open>pz = cz + h/8\<close> both reference planes are
  \<open>3h/8\<close> away, so \<^verbatim>\<open>VerticalDistance\<close> is \<open>1\<close> there, not \<open>0\<close>. Height \<open>8\<close>, centre
  \<open>0\<close>, point \<open>0 + 8/8\<close>.
\<close>

theorem VerticalDistance_at_peak_counterexample:
  "\<not> (EpanechnikovFunction (Fin 8) (Fin 0) (Fin 0 + Fin 8 / Fin 8) = Fin 1
       \<and> VerticalDistance (Fin 8) (Fin 0) (Fin 0 + Fin 8 / Fin 8) = Fin 0)"
  by (simp add: VerticalDistance_def std_min_def)

text \<open>
  C5, amended. For every height \<open>h > 0\<close> and centre \<open>cz\<close> for which the two edges
  \<open>cz - h/4\<close> and \<open>cz + h/2\<close>, the point \<open>cz + h/8\<close> and the divisor \<open>3h/8\<close> are computed
  without rounding error, the vertical kernel weight at \<open>pz = cz + h/8\<close> is \<open>1\<close>, and
  \<^verbatim>\<open>VerticalDistance\<close> is \<open>1\<close> there. A rounding error in one of the four moves the
  computed point off the middle of the computed planes: at \<open>h = 2^(-49)\<close> and
  \<open>cz = 2 - 3 * 2^(-52)\<close> the upper plane \<open>cz + h/2\<close> rounds to \<open>2\<close>, and
  \<^verbatim>\<open>VerticalDistance\<close> at \<open>cz + h/8\<close> is the double nearest to \<open>2/3\<close>
  (lemma \<open>VerticalDistance_at_peak_rounding\<close>).
\<close>

theorem EpanechnikovFunction_at_peak:
  assumes "0 < h"
    and "Fin c - Fin h / Fin 4 = Fin (c - h / 4)"
    and "Fin c + Fin h / Fin 2 = Fin (c + h / 2)"
    and "Fin c + Fin h / Fin 8 = Fin (c + h / 8)"
    and "Fin 3 * Fin h / Fin 8 = Fin (3 * h / 8)"
  shows "EpanechnikovFunction (Fin h) (Fin c) (Fin c + Fin h / Fin 8) = Fin 1
       \<and> VerticalDistance (Fin h) (Fin c) (Fin c + Fin h / Fin 8) = Fin 1"
proof -
  let ?k = "3 * h / 8"
  have k: "0 < ?k" using assms(1) by simp
  have rep: "rnd ?k = Fin ?k" using assms(5) by (rule divide_representable)
  then have nrep: "rnd (- ?k) = Fin (- ?k)" by (simp add: rnd_uminus)
  have "c - h / 4 - (c + h / 8) = - ?k" "c + h / 2 - (c + h / 8) = ?k" by simp_all
  then have ab: "Fin (c - h / 4) - Fin (c + h / 8) = Fin (- ?k)"
    "Fin (c + h / 2) - Fin (c + h / 8) = Fin ?k"
    using rep nrep by (simp_all only: minus_Fin)
  have q: "Fin (- ?k) / Fin ?k = Fin (- 1)" "Fin ?k / Fin ?k = Fin 1"
    using k by simp_all
  have vd: "VerticalDistance (Fin h) (Fin c) (Fin c + Fin h / Fin 8) = Fin 1"
    unfolding VerticalDistance_def Let_def assms(2-5) ab q by (simp add: std_min_def)
  have "EpanechnikovFunction (Fin h) (Fin c) (Fin c + Fin h / Fin 8) = Fin 1"
    unfolding EpanechnikovFunction_def vd unfolding assms(2-4) using assms(1) by simp
  with vd show ?thesis by simp
qed

text \<open>
  C5, an instance: height \<open>8\<close>, centre \<open>0\<close>, point \<open>1\<close>.
\<close>

theorem EpanechnikovFunction_at_peak_witness:
  "EpanechnikovFunction (Fin 8) (Fin 0) (Fin 0 + Fin 8 / Fin 8) = Fin 1
     \<and> VerticalDistance (Fin 8) (Fin 0) (Fin 0 + Fin 8 / Fin 8) = Fin 1
     \<and> Fin 0 + Fin 8 / Fin 8 = Fin 1"
  using EpanechnikovFunction_at_peak [of 8 0] by simp

subsection \<open>The vertical kernel: negative weights\<close>

text \<open>
  C6. Some input has a \<^verbatim>\<open>VerticalDistance\<close> above \<open>2\<close> and a strictly negative
  vertical kernel weight, which is returned as it is: the height \<open>2^1021\<close>, the
  centre \<open>15 * 2^1020\<close> and the point at plus infinity, three values of a \<^verbatim>\<open>double\<close>.
  The upper edge \<open>cz + h/2\<close> overflows to plus infinity, so the point passes the
  window test; the bottom distance is plus infinity and the top distance NaN,
  \<^verbatim>\<open>std::min\<close> returns its first argument, and the weight is
  \<open>1 - (1 - \<infinity>)\<^sup>2\<close>, minus infinity.
\<close>

theorem EpanechnikovFunction_negative_output:
  "Fin 2 < VerticalDistance (Fin (2 powi 1021)) (Fin (15 * 2 powi 1020)) PInf
   \<and> EpanechnikovFunction (Fin (2 powi 1021)) (Fin (15 * 2 powi 1020)) PInf < Fin 0
   \<and> EpanechnikovFunction (Fin (2 powi 1021)) (Fin (15 * 2 powi 1020)) PInf = NInf
   \<and> is_double (Fin (2 powi 1021)) \<and> is_double (Fin (15 * 2 powi 1020)) \<and> is_double PInf
   \<and> (\<exists>h cz pz. is_double h \<and> is_double cz \<and> is_double pz
         \<and> Fin 2 < VerticalDistance h cz pz \<and> EpanechnikovFunction h cz pz < Fin 0)"
proof -
  let ?h = "Fin (2 powi 1021)" and ?c = "Fin (15 * 2 powi 1020)"
  have p: "rnd (2 powi 1019) = Fin (2 powi 1019)" "rnd (2 powi 1020) = Fin (2 powi 1020)"
    "rnd (2 powi 1021) = Fin (2 powi 1021)" "rnd (2 powi 1024) = PInf"
    by (simp_all add: rnd_power rnd_overflow)
  have c: "rnd (15 * 2 powi 1020) = Fin (15 * 2 powi 1020)"
    by (rule rnd_exact_bits [where m = 15 and e = 1020 and n = 4]) simp_all
  have "15 * 2 powi 1020 - 2 powi 1019 = 15 * (2 * 2 powi 1019) - (2::real) powi 1019"
    by (simp add: div_small)
  also have "\<dots> = 29 * 2 powi 1019" by simp
  finally have l: "15 * 2 powi 1020 - 2 powi 1019 = 29 * (2::real) powi 1019" .
  have lo: "rnd (29 * 2 powi 1019) = Fin (29 * 2 powi 1019)"
    by (rule rnd_exact_bits [where m = 29 and e = 1019 and n = 5]) simp_all
  have "15 * 2 powi 1020 + 2 powi 1020 = 16 * (2::real) powi 1020" by simp
  also have "\<dots> = 2 powi 1024" by (simp add: div_small)
  finally have u: "15 * 2 powi 1020 + 2 powi 1020 = (2::real) powi 1024" .
  have k1: "rnd (3 * 2 powi 1021) = Fin (3 * 2 powi 1021)"
    by (rule rnd_exact_bits [where m = 3 and e = 1021 and n = 2]) simp_all
  have "3 * 2 powi 1021 / 8 = 3 * ((2::real) powi 1021 / 8)" by simp
  also have "\<dots> = 3 * 2 powi 1018" by (simp add: div_small)
  finally have k2: "3 * 2 powi 1021 / 8 = 3 * (2::real) powi 1018" .
  have k3: "rnd (3 * 2 powi 1018) = Fin (3 * 2 powi 1018)"
    by (rule rnd_exact_bits [where m = 3 and e = 1018 and n = 2]) simp_all
  have lower: "?c - ?h / Fin 4 = Fin (29 * 2 powi 1019)"
    by (simp add: div_small p l lo)
  have upper: "?c + ?h / Fin 2 = PInf"
    by (simp add: div_small p u)
  have k: "Fin 3 * ?h / Fin 8 = Fin (3 * 2 powi 1018)"
    by (simp add: k1 k2 k3)
  have vd: "VerticalDistance ?h ?c PInf = PInf"
    unfolding VerticalDistance_def Let_def lower upper k
    by (simp add: minus_double_def std_min_def)
  have ef: "EpanechnikovFunction ?h ?c PInf = NInf"
    unfolding EpanechnikovFunction_def vd lower upper by (simp add: minus_double_def)
  have d: "is_double ?h" "is_double ?c" "is_double PInf"
    by (simp_all add: is_double_def p c)
  have "Fin 2 < VerticalDistance ?h ?c PInf" "EpanechnikovFunction ?h ?c PInf < Fin 0"
    by (simp_all add: vd ef)
  then show ?thesis using ef d by blast
qed

subsection \<open>The horizontal kernel: range and monotonicity\<close>

text \<open>
  C7, as the claim states it, fails. At the width \<open>2\<close> with the centre at the origin,
  the point \<open>(100, 0)\<close> has the weight \<open>0\<close>: \<open>exp (- 50000)\<close> underflows. The point
  \<open>(2^(-30), 0)\<close> is not the centre and has the weight \<open>1\<close>, as the centre has:
  \<open>exp (- 5 * 2^(-60))\<close> rounds to \<open>1\<close>. So the weight can be exactly zero, can be
  \<open>1\<close> away from the centre, and does not decrease strictly.
\<close>

theorem GaussFunction_range_counterexample:
  "GaussFunction (Fin 2) (Fin 0) (Fin 0) (Fin 100) (Fin 0) = Fin 0
   \<and> GaussFunction (Fin 2) (Fin 0) (Fin 0) (Fin (2 powi (- 30))) (Fin 0) = Fin 1
   \<and> GaussFunction (Fin 2) (Fin 0) (Fin 0) (Fin 0) (Fin 0) = Fin 1
   \<and> (2::real) powi (- 30) \<noteq> 0"
proof -
  have s: "sqrt 10000 = 100" by (rule sqrt_square_numeral) simp_all
  have "GaussFunction (Fin 2) (Fin 0) (Fin 0) (Fin 100) (Fin 0) = exp_double (Fin (- 50000))"
    by (simp add: GaussFunction_def s)
  also have "\<dots> = Fin 0" by (rule exp_double_underflow) simp
  finally have far: "GaussFunction (Fin 2) (Fin 0) (Fin 0) (Fin 100) (Fin 0) = Fin 0" .
  have p: "rnd (2 powi (- 30)) = Fin (2 powi (- 30))" "rnd (2 powi (- 60)) = Fin (2 powi (- 60))"
    by (simp_all add: rnd_power)
  have q: "sqrt (2 powi (- 60)) = 2 powi (- 30)"
    by (rule sqrt_square_numeral) simp_all
  have m: "rnd (- (5 * 2 powi (- 60))) = Fin (- (5 * 2 powi (- 60)))"
    by (rule rnd_exact_small [where m = "- 5" and e = "- 60"]) simp_all
  have "5 * 2 powi (- 60) < 8 * (2::real) powi (- 60)" by simp
  also have "\<dots> = 2 powi (- 57)" by (simp add: div_small)
  also have "\<dots> < 2 powi (- 54)" by simp
  finally have t: "5 * 2 powi (- 60) < (2::real) powi (- 54)" .
  have "GaussFunction (Fin 2) (Fin 0) (Fin 0) (Fin (2 powi (- 30))) (Fin 0)
          = exp_double (Fin (- (5 * 2 powi (- 60))))"
    by (simp add: GaussFunction_def p q m)
  also have "\<dots> = Fin 1" using t by (intro exp_double_near_one) simp_all
  finally show ?thesis using far by (simp add: GaussFunction_def)
qed

text \<open>
  C7, amended. For every width \<open>w\<close> whose half \<open>w/2\<close>, computed in double arithmetic,
  is positive and finite, and all finite coordinates, the horizontal kernel weight
  lies in \<open>[0, 1]\<close>, is \<open>1\<close> when the point coincides with the centre, and does not
  increase with the computed planar distance.
\<close>

theorem GaussFunction_range:
  assumes "Fin 0 < Fin w / Fin 2" and "Fin w / Fin 2 < PInf"
  shows "Fin 0 \<le> GaussFunction (Fin w) (Fin cx) (Fin cy) (Fin px) (Fin py)
       \<and> GaussFunction (Fin w) (Fin cx) (Fin cy) (Fin px) (Fin py) \<le> Fin 1
       \<and> GaussFunction (Fin w) (Fin cx) (Fin cy) (Fin cx) (Fin cy) = Fin 1
       \<and> (sqrt_double (pow_2 (Fin px - Fin cx) + pow_2 (Fin py - Fin cy))
            \<le> sqrt_double (pow_2 (Fin qx - Fin cx) + pow_2 (Fin qy - Fin cy))
          \<longrightarrow> GaussFunction (Fin w) (Fin cx) (Fin cy) (Fin qx) (Fin qy)
              \<le> GaussFunction (Fin w) (Fin cx) (Fin cy) (Fin px) (Fin py))"
proof -
  obtain k where k: "Fin w / Fin 2 = Fin k" "0 < k"
    by (rule finite_positive [OF assms])
  let ?D = "\<lambda>x y. sqrt_double (pow_2 (Fin x - Fin cx) + pow_2 (Fin y - Fin cy))"
  have G: "GaussFunction (Fin w) (Fin cx) (Fin cy) (Fin x) (Fin y)
           = exp_double (Fin (- 5) * pow_2 (?D x y / Fin k))" for x y
    by (simp only: GaussFunction_def Let_def k(1))
  have D: "nn (?D x y)" for x y by (rule nn_distance)
  have N: "nn (?D x y / Fin k)" for x y by (intro nn_divide k(2) D)
  have P: "nn (pow_2 (?D x y / Fin k))" for x y by (intro nn_pow_2 N)
  have T: "np (Fin (- 5) * pow_2 (?D x y / Fin k))" for x y by (intro np_times P)
  have range: "Fin 0 \<le> GaussFunction (Fin w) (Fin cx) (Fin cy) (Fin px) (Fin py)
       \<and> GaussFunction (Fin w) (Fin cx) (Fin cy) (Fin px) (Fin py) \<le> Fin 1"
    unfolding G by (intro exp_double_range T)
  have centre: "GaussFunction (Fin w) (Fin cx) (Fin cy) (Fin cx) (Fin cy) = Fin 1"
    unfolding G using k(2) by simp
  have mono: "GaussFunction (Fin w) (Fin cx) (Fin cy) (Fin qx) (Fin qy)
              \<le> GaussFunction (Fin w) (Fin cx) (Fin cy) (Fin px) (Fin py)"
    if "?D px py \<le> ?D qx qy"
    unfolding G
    by (intro exp_double_mono T np_times_antimono P nn_pow_2_mono N nn_divide_mono k(2) D that)
  show ?thesis using range centre mono by blast
qed

text \<open>
  C7, an instance: width \<open>2\<close>, the centre at the origin, the points \<open>(1, 0)\<close> and
  \<open>(0, 0)\<close>.
\<close>

theorem GaussFunction_range_witness:
  "Fin 0 \<le> GaussFunction (Fin 2) (Fin 0) (Fin 0) (Fin 1) (Fin 0)
   \<and> GaussFunction (Fin 2) (Fin 0) (Fin 0) (Fin 1) (Fin 0) \<le> Fin 1
   \<and> GaussFunction (Fin 2) (Fin 0) (Fin 0) (Fin 0) (Fin 0) = Fin 1
   \<and> GaussFunction (Fin 2) (Fin 0) (Fin 0) (Fin 1) (Fin 0)
       \<le> GaussFunction (Fin 2) (Fin 0) (Fin 0) (Fin 0) (Fin 0)"
  using GaussFunction_range [of 2 0 0 1 0 0 0] GaussFunction_range [of 2 0 0 0 0 1 0]
  by simp

subsection \<open>FindCluster: no failing path\<close>

text \<open>
  C8. \<^verbatim>\<open>FindCluster\<close> has no failing path: it returns a table with one id per
  centroid for every input. For every \<open>epsilon \<le> 0\<close> every centroid is its own
  cluster, \<open>id(i) = i\<close>, since no distance is below \<open>epsilon\<close>. For the empty matrix the
  table is empty.
\<close>

theorem FindCluster_nonpositive_epsilon_and_empty:
  "(epsilon \<le> Fin 0 \<longrightarrow> ID (FindCluster ctr epsilon) = map (\<lambda>i. Fin (real i)) [0..<length ctr])
   \<and> FindCluster [] epsilon = \<lparr>X = [], Y = [], Z = [], ID = []\<rparr>
   \<and> length (ID (FindCluster ctr epsilon)) = length ctr"
proof -
  have "spec_leader ctr epsilon i = i" if "epsilon \<le> Fin 0" for i
  proof (rule spec_leader_unique)
    show "\<forall>k<i. \<not> delta ctr i k < epsilon"
      using that not_negative_not_less [OF delta_not_negative] by blast
  qed simp_all
  then show ?thesis
    by (simp add: FindCluster_ID) (simp add: FindCluster_def outer_loop.simps)
qed

text \<open>
  C8, an instance: two centroids at the same place stay apart for \<open>epsilon = 0\<close>.
\<close>

theorem FindCluster_nonpositive_epsilon_and_empty_witness:
  "ID (FindCluster [(Fin 0, Fin 0, Fin 0), (Fin 0, Fin 0, Fin 0)] (Fin 0)) = [Fin 0, Fin 1]
   \<and> FindCluster [] (Fin 0) = \<lparr>X = [], Y = [], Z = [], ID = []\<rparr>"
  using FindCluster_nonpositive_epsilon_and_empty
          [of "Fin 0" "[(Fin 0, Fin 0, Fin 0), (Fin 0, Fin 0, Fin 0)]"]
  by (simp add: upt_rec)

subsection \<open>FindCluster: clustering the leader coordinates again\<close>

text \<open>
  C9, as the claim states it, fails. In the example of the specification,
  \<open>A = (0, 0, 0)\<close>, \<open>B = (0.5, 0, 0)\<close>, \<open>C = (1, 0, 0)\<close> with \<open>epsilon\<close> the double
  nearest to \<open>0.6\<close>, the ids are \<open>[0, 0, 1]\<close>: \<open>C\<close> is led by \<open>B\<close>, which is itself led by
  \<open>A\<close>. The leader coordinates are \<open>[A, A, B]\<close>, and on them \<^verbatim>\<open>FindCluster\<close> gives
  \<open>[0, 0, 0]\<close>: \<open>B\<close> is within \<open>epsilon\<close> of \<open>A\<close>.
\<close>

theorem FindCluster_reclustering_counterexample:
  "ID (FindCluster
         (spec_leader_coordinates
            (FindCluster [(Fin 0, Fin 0, Fin 0), (Fin (1 / 2), Fin 0, Fin 0), (Fin 1, Fin 0, Fin 0)]
               (rnd (3 / 5))))
         (rnd (3 / 5)))
     \<noteq> ID (FindCluster [(Fin 0, Fin 0, Fin 0), (Fin (1 / 2), Fin 0, Fin 0), (Fin 1, Fin 0, Fin 0)]
            (rnd (3 / 5)))"
proof -
  let ?abc = "[(Fin 0, Fin 0, Fin 0), (Fin (1 / 2), Fin 0, Fin 0), (Fin 1, Fin 0, Fin 0)]
                :: NumericMatrix"
  let ?aab = "[(Fin 0, Fin 0, Fin 0), (Fin 0, Fin 0, Fin 0), (Fin (1 / 2), Fin 0, Fin 0)]
                :: NumericMatrix"
  note e = rnd_three_fifths
  have s: "sqrt (1 / 4) = 1 / 2" by (rule sqrt_square_numeral) simp_all
  have d: "delta ?abc (Suc 0) 0 = Fin (1 / 2)" "delta ?abc (Suc (Suc 0)) 0 = Fin 1"
          "delta ?abc (Suc (Suc 0)) (Suc 0) = Fin (1 / 2)"
          "delta ?aab (Suc 0) 0 = Fin 0" "delta ?aab (Suc (Suc 0)) 0 = Fin (1 / 2)"
    by (simp_all add: delta_def cell_def s)
  have z: "Fin 0 < rnd (3 / 5)"
    by (rule double_less_le_trans [OF _ double_less_imp_le [OF e(1)]]) simp
  have ids: "ID (FindCluster ?abc (rnd (3 / 5))) = [Fin 0, Fin 0, Fin 1]"
    unfolding FindCluster_ID spec_leader_def
    by (simp add: upt_rec d e)
  have lc: "spec_leader_coordinates (FindCluster ?abc (rnd (3 / 5))) = ?aab"
    unfolding spec_leader_coordinates_def ids by (simp add: FindCluster_def Let_def)
  have "ID (FindCluster ?aab (rnd (3 / 5))) = [Fin 0, Fin 0, Fin 0]"
    unfolding FindCluster_ID spec_leader_def
    by (simp add: upt_rec d e z)
  then show ?thesis unfolding lc ids by simp
qed

text \<open>
  C9, amended. When every leader named in the output is its own leader
  (\<open>id(id(i)) = id(i)\<close> for every row \<open>i\<close>, that is, no chain), applying \<^verbatim>\<open>FindCluster\<close>
  with the same \<open>epsilon\<close> to the leader coordinates of its output reproduces the same
  ids.
\<close>

theorem FindCluster_reclustering_fixed_point:
  assumes "\<forall>i<length ctr.
             ID (FindCluster ctr epsilon) ! nat \<lfloor>valof (ID (FindCluster ctr epsilon) ! i)\<rfloor>
               = ID (FindCluster ctr epsilon) ! i"
  shows "ID (FindCluster (spec_leader_coordinates (FindCluster ctr epsilon)) epsilon)
           = ID (FindCluster ctr epsilon)"
proof -
  let ?L = "spec_leader ctr epsilon"
  let ?c = "spec_leader_coordinates (FindCluster ctr epsilon)"
  have len: "length ?c = length ctr" by (simp add: spec_leader_coordinates_FindCluster)
  have idem: "?L (?L i) = ?L i" if "i < length ctr" for i
  proof -
    have l: "?L i < length ctr" using that spec_leader_le [of ctr epsilon i] by simp
    have "ID (FindCluster ctr epsilon) ! nat \<lfloor>valof (ID (FindCluster ctr epsilon) ! i)\<rfloor>
            = ID (FindCluster ctr epsilon) ! i"
      using assms that by blast
    then have "ID (FindCluster ctr epsilon) ! ?L i = Fin (real (?L i))"
      using that by (simp add: FindCluster_ID_nth)
    then have "Fin (real (?L (?L i))) = Fin (real (?L i))"
      using l by (simp add: FindCluster_ID_nth)
    then show ?thesis by simp
  qed
  have "spec_leader ?c epsilon i = ?L i" if i: "i < length ctr" for i
  proof (rule spec_leader_unique)
    show "?L i \<le> i" by (rule spec_leader_le)
  next
    assume lt: "?L i < i"
    then have d: "delta ctr i (?L i) < epsilon" using spec_leader_first by blast
    then have "Fin 0 < epsilon" by (rule not_negative_less [OF delta_not_negative])
    moreover obtain x y z where "ctr ! ?L i = (Fin x, Fin y, Fin z)"
      using d by (rule delta_less_finite)
    then have "delta ctr (?L i) (?L i) = Fin 0" by (rule delta_self)
    then have "delta ?c i (?L i) = Fin 0"
      using i lt idem [OF i] by (simp add: delta_spec_leader_coordinates)
    ultimately show "delta ?c i (?L i) < epsilon" by simp
  next
    show "\<forall>k<?L i. \<not> delta ?c i k < epsilon"
    proof (intro allI impI)
      fix k assume k: "k < ?L i"
      have li: "?L i \<le> i" by (rule spec_leader_le)
      have "?L k \<le> k" by (rule spec_leader_le)
      then have "?L k < ?L i" using k by simp
      moreover have "\<forall>m<?L i. \<not> delta ctr (?L i) m < epsilon"
        using idem [OF i] by (rule spec_leader_self)
      ultimately have "\<not> delta ctr (?L i) (?L k) < epsilon" by blast
      moreover have "delta ?c i k = delta ctr (?L i) (?L k)"
        using i k li by (simp add: delta_spec_leader_coordinates)
      ultimately show "\<not> delta ?c i k < epsilon" by simp
    qed
  qed
  then show ?thesis by (simp add: FindCluster_ID len)
qed

text \<open>
  C9, an instance. \<open>(0, 0, 0)\<close>, \<open>(1, 0, 0)\<close>, \<open>(10, 0, 0)\<close> with \<open>epsilon = 2\<close>: the ids
  are \<open>[0, 0, 2]\<close>, both leaders lead themselves, and the leader coordinates
  \<open>(0, 0, 0)\<close>, \<open>(0, 0, 0)\<close>, \<open>(10, 0, 0)\<close> get the ids \<open>[0, 0, 2]\<close> again.
\<close>

theorem FindCluster_reclustering_fixed_point_witness:
  "ID (FindCluster [(Fin 0, Fin 0, Fin 0), (Fin 1, Fin 0, Fin 0), (Fin 10, Fin 0, Fin 0)] (Fin 2))
     = [Fin 0, Fin 0, Fin 2]
   \<and> ID (FindCluster
           (spec_leader_coordinates
              (FindCluster [(Fin 0, Fin 0, Fin 0), (Fin 1, Fin 0, Fin 0), (Fin 10, Fin 0, Fin 0)]
                 (Fin 2)))
           (Fin 2))
       = [Fin 0, Fin 0, Fin 2]"
proof -
  let ?c = "[(Fin 0, Fin 0, Fin 0), (Fin 1, Fin 0, Fin 0), (Fin 10, Fin 0, Fin 0)] :: NumericMatrix"
  have s: "sqrt 100 = 10" "sqrt 81 = 9" by (rule sqrt_square_numeral; simp)+
  have d: "delta ?c (Suc 0) 0 = Fin 1" "delta ?c (Suc (Suc 0)) 0 = Fin 10"
          "delta ?c (Suc (Suc 0)) (Suc 0) = Fin 9"
    by (simp_all add: delta_def cell_def s)
  have ids: "ID (FindCluster ?c (Fin 2)) = [Fin 0, Fin 0, Fin 2]"
    unfolding FindCluster_ID spec_leader_def
    by (simp add: upt_rec d)
  have "\<forall>i<length ?c. ID (FindCluster ?c (Fin 2)) ! nat \<lfloor>valof (ID (FindCluster ?c (Fin 2)) ! i)\<rfloor>
          = ID (FindCluster ?c (Fin 2)) ! i"
    unfolding ids by (simp add: less_Suc_eq eval_nat_numeral)
  then show ?thesis using FindCluster_reclustering_fixed_point [of ?c "Fin 2"] ids by simp
qed

subsection \<open>The sign of the radius\<close>

text \<open>
  C10. \<^verbatim>\<open>InCylinder\<close> gives the same answer for the radius \<open>r\<close> and the radius \<open>- r\<close>:
  only the square of the radius enters the test, so a negative radius is not rejected
  and acts as its absolute value.
\<close>

theorem InCylinder_radius_sign:
  "InCylinder px py pz (- r) h cx cy cz = InCylinder px py pz r h cx cy cz
     \<and> InCylinder px py pz r h cx cy cz = InCylinder px py pz (fabs r) h cx cy cz"
  by (simp add: InCylinder_def)

end
